theory Spec2Isabelle
  imports Complex_Main "HOL-Library.AList"
begin

section \<open>JavaScript values, as far as stator.js looks at them\<close>

text \<open>
  stator.js inspects values with \<^verbatim>\<open>typeof\<close>, compares them with \<^verbatim>\<open>!==\<close>, tests them
  for truthiness and copies them with \<^verbatim>\<open>JSON.parse(JSON.stringify(obj))\<close>.  Numbers are
  NaN, the two infinities, or a finite value carried as a rational (every finite double is
  one; \<^verbatim>\<open>-0\<close> is identified with \<^verbatim>\<open>0\<close>, which \<^verbatim>\<open>===\<close>, \<^verbatim>\<open>typeof\<close> and the JSON round trip
  cannot tell apart).  Objects and arrays live in a heap and are named by their address, so
  that two references to one object are equal and a mutation through one is seen through
  the other.  A function is named by a string; \<open>JObjectPrototype\<close> is the built-in object
  every plain object inherits from.  Symbols, BigInts, property getters and \<^verbatim>\<open>toJSON\<close>
  methods are outside the model.
\<close>

datatype jsnum = NaN | PosInfinity | NegInfinity | Finite rat

datatype jsval =
    JUndefined
  | JNull
  | JBool bool
  | JNum jsnum
  | JStr string
  | JFun string
  | JObjectPrototype
  | JRef nat

datatype cell = Obj "(string \<times> jsval) list" | Arr "jsval list"

type_synonym heap = "cell list"

definition cell_at :: "heap \<Rightarrow> nat \<Rightarrow> cell option" where
  "cell_at h a = (if a < length h then Some (h ! a) else None)"

datatype jstype =
  TyUndefined | TyObject | TyBoolean | TyNumber | TyString | TyFunction

fun typeof :: "jsval \<Rightarrow> jstype" where
  "typeof JUndefined = TyUndefined"
| "typeof JNull = TyObject"
| "typeof (JBool b) = TyBoolean"
| "typeof (JNum n) = TyNumber"
| "typeof (JStr s) = TyString"
| "typeof (JFun f) = TyFunction"
| "typeof JObjectPrototype = TyObject"
| "typeof (JRef a) = TyObject"

text \<open>\<^verbatim>\<open>a === b\<close>: equal primitives, or the same object; NaN equals nothing.\<close>

definition strict_eq :: "jsval \<Rightarrow> jsval \<Rightarrow> bool" where
  "strict_eq a b = (a = b \<and> a \<noteq> JNum NaN)"

fun truthy :: "jsval \<Rightarrow> bool" where
  "truthy JUndefined = False"
| "truthy JNull = False"
| "truthy (JBool b) = b"
| "truthy (JNum NaN) = False"
| "truthy (JNum (Finite q)) = (q \<noteq> 0)"
| "truthy (JNum n) = True"
| "truthy (JStr s) = (s \<noteq> [])"
| "truthy v = True"

datatype error =
    CannotCreateMoreThanOneGlobalState
  | CannotCreateNewKey string
  | AccessToKeyNotSetDuringInitialization string
  | TypeErrorChange string jstype jstype
  | QuerySelectorMatched string nat
  | NoRenderCallback
  | JsTypeError string
  | JsSyntaxError string

section \<open>\<^verbatim>\<open>_clone_obj\<close>: JSON.parse(JSON.stringify(obj))\<close>

datatype json =
    JsonNull
  | JsonBool bool
  | JsonNum rat
  | JsonStr string
  | JsonArr "json list"
  | JsonObj "(string \<times> json) list"

text \<open>
  \<^verbatim>\<open>JSON.stringify\<close>.  The result \<open>None\<close> is JavaScript's \<^verbatim>\<open>undefined\<close>: what
  \<^verbatim>\<open>undefined\<close> and functions serialise to.  Inside an object such a property is left
  out, inside an array it becomes \<^verbatim>\<open>null\<close>; NaN and the infinities become \<^verbatim>\<open>null\<close>.
  \<open>stack\<close> holds the objects being serialised: meeting one of them again is a cycle, and
  \<^verbatim>\<open>JSON.stringify\<close> throws a TypeError.  A dangling address (no cell) cannot occur in
  JavaScript; it is treated like a cycle.
\<close>

definition remaining :: "heap \<Rightarrow> nat list \<Rightarrow> nat" where
  "remaining h stack = length h - card (set stack \<inter> {..<length h})"

lemma remaining_push:
  assumes "a < length h" and "a \<notin> set stack"
  shows "remaining h (a # stack) < remaining h stack"
proof -
  have fin: "finite (set stack \<inter> {..<length h})" by simp
  have eq: "set (a # stack) \<inter> {..<length h} = insert a (set stack \<inter> {..<length h})"
    using assms by auto
  have notin: "a \<notin> set stack \<inter> {..<length h}" using assms by simp
  have c: "card (set (a # stack) \<inter> {..<length h}) = Suc (card (set stack \<inter> {..<length h}))"
    unfolding eq using fin notin by simp
  have "card (set (a # stack) \<inter> {..<length h}) \<le> card {..<length h}"
    by (rule card_mono) auto
  then have "Suc (card (set stack \<inter> {..<length h})) \<le> length h"
    using c by simp
  then show ?thesis
    unfolding remaining_def c by simp
qed

function (sequential)
  stringify :: "heap \<Rightarrow> nat list \<Rightarrow> jsval \<Rightarrow> error + json option"
  and stringify_elems :: "heap \<Rightarrow> nat list \<Rightarrow> jsval list \<Rightarrow> error + json list"
  and stringify_props :: "heap \<Rightarrow> nat list \<Rightarrow> (string \<times> jsval) list \<Rightarrow> error + (string \<times> json) list"
where
  "stringify h stack JUndefined = Inr None"
| "stringify h stack JNull = Inr (Some JsonNull)"
| "stringify h stack (JBool b) = Inr (Some (JsonBool b))"
| "stringify h stack (JNum (Finite q)) = Inr (Some (JsonNum q))"
| "stringify h stack (JNum n) = Inr (Some JsonNull)"
| "stringify h stack (JStr s) = Inr (Some (JsonStr s))"
| "stringify h stack (JFun f) = Inr None"
| "stringify h stack JObjectPrototype = Inr (Some (JsonObj []))"
| "stringify h stack (JRef a) =
     (if a < length h \<and> a \<notin> set stack then
        (case h ! a of
           Arr xs \<Rightarrow>
             (case stringify_elems h (a # stack) xs of
                Inl e \<Rightarrow> Inl e
              | Inr js \<Rightarrow> Inr (Some (JsonArr js)))
         | Obj ps \<Rightarrow>
             (case stringify_props h (a # stack) ps of
                Inl e \<Rightarrow> Inl e
              | Inr jps \<Rightarrow> Inr (Some (JsonObj jps))))
      else Inl (JsTypeError ''Converting circular structure to JSON''))"
| "stringify_elems h stack [] = Inr []"
| "stringify_elems h stack (x # xs) =
     (case stringify h stack x of
        Inl e \<Rightarrow> Inl e
      | Inr r \<Rightarrow>
          (case stringify_elems h stack xs of
             Inl e \<Rightarrow> Inl e
           | Inr js \<Rightarrow> Inr ((case r of None \<Rightarrow> JsonNull | Some j \<Rightarrow> j) # js)))"
| "stringify_props h stack [] = Inr []"
| "stringify_props h stack ((k, x) # ps) =
     (case stringify h stack x of
        Inl e \<Rightarrow> Inl e
      | Inr r \<Rightarrow>
          (case stringify_props h stack ps of
             Inl e \<Rightarrow> Inl e
           | Inr jps \<Rightarrow> Inr (case r of None \<Rightarrow> jps | Some j \<Rightarrow> (k, j) # jps)))"
  by pat_completeness auto

termination
proof (relation "inv_image (less_than <*lex*> less_than)
    (\<lambda>x. case x of
       Inl (h, stack, v) \<Rightarrow> (remaining h stack, 0)
     | Inr (Inl (h, stack, xs)) \<Rightarrow> (remaining h stack, Suc (length xs))
     | Inr (Inr (h, stack, ps)) \<Rightarrow> (remaining h stack, Suc (length ps)))", goal_cases)
  case 1
  show ?case by (intro wf_inv_image wf_lex_prod wf_less_than)
next
  case (2 h stack a)
  then show ?case by (simp add: remaining_push)
next
  case (3 h stack a)
  then show ?case by (simp add: remaining_push)
qed simp_all

text \<open>
  \<^verbatim>\<open>JSON.parse\<close> of the text of a JSON value: every array and object of the text is a
  new object, allocated at the end of the heap.
\<close>

fun parse :: "heap \<Rightarrow> json \<Rightarrow> jsval \<times> heap"
  and parse_elems :: "heap \<Rightarrow> json list \<Rightarrow> jsval list \<times> heap"
  and parse_props :: "heap \<Rightarrow> (string \<times> json) list \<Rightarrow> (string \<times> jsval) list \<times> heap"
where
  "parse h JsonNull = (JNull, h)"
| "parse h (JsonBool b) = (JBool b, h)"
| "parse h (JsonNum q) = (JNum (Finite q), h)"
| "parse h (JsonStr s) = (JStr s, h)"
| "parse h (JsonArr js) =
     (case parse_elems h js of (vs, h1) \<Rightarrow> (JRef (length h1), h1 @ [Arr vs]))"
| "parse h (JsonObj jps) =
     (case parse_props h jps of (ps, h1) \<Rightarrow> (JRef (length h1), h1 @ [Obj ps]))"
| "parse_elems h [] = ([], h)"
| "parse_elems h (j # js) =
     (case parse h j of (v, h1) \<Rightarrow>
        (case parse_elems h1 js of (vs, h2) \<Rightarrow> (v # vs, h2)))"
| "parse_props h [] = ([], h)"
| "parse_props h ((k, j) # jps) =
     (case parse h j of (v, h1) \<Rightarrow>
        (case parse_props h1 jps of (ps, h2) \<Rightarrow> ((k, v) # ps, h2)))"

text \<open>
  \<^verbatim>\<open>_clone_obj\<close> (lines 10-13).  \<^verbatim>\<open>JSON.stringify\<close> of a function is \<^verbatim>\<open>undefined\<close>, and
  \<^verbatim>\<open>JSON.parse(undefined)\<close> throws a SyntaxError; only the value \<^verbatim>\<open>undefined\<close> itself is
  returned as it is.
\<close>

definition clone_obj :: "heap \<Rightarrow> jsval \<Rightarrow> error + (jsval \<times> heap)" where
  "clone_obj h obj =
     (if obj = JUndefined then Inr (JUndefined, h)
      else
        (case stringify h [] obj of
           Inl e \<Rightarrow> Inl e
         | Inr None \<Rightarrow> Inl (JsSyntaxError ''undefined is not valid JSON'')
         | Inr (Some j) \<Rightarrow> Inr (parse h j)))"

section \<open>Property lookup and assignment on a Proxy target\<close>

text \<open>
  Both Proxy targets of stator.js come out of \<^verbatim>\<open>JSON.parse\<close>, which makes plain objects
  inheriting from \<^verbatim>\<open>Object.prototype\<close>.  The traps test \<^verbatim>\<open>key in target\<close>, read
  \<^verbatim>\<open>target[key]\<close> and assign \<^verbatim>\<open>target[key] = ...\<close>; all three follow the prototype
  chain.  A target is its own properties (in insertion order) and its prototype.  The
  prototype starts as \<^verbatim>\<open>Object.prototype\<close> and changes only through an assignment to the
  inherited accessor \<^verbatim>\<open>__proto__\<close>: to \<^verbatim>\<open>null\<close>, or to an object of the heap (which itself
  inherits from \<^verbatim>\<open>Object.prototype\<close> or, for an array, from \<^verbatim>\<open>Array.prototype\<close>).
  The tables list the string-keyed properties of the two built-in prototypes as of
  ECMAScript 2015, the edition that introduced Proxy, with the \<^verbatim>\<open>__xxx__\<close> properties
  every browser has.  Array elements are dense.
\<close>

datatype proto = ProtoNull | ProtoObjectPrototype | ProtoCell nat

record target =
  props :: "(string \<times> jsval) list"
  proto :: proto

definition object_prototype_keys :: "string list" where
  "object_prototype_keys =
     [''constructor'', ''__defineGetter__'', ''__defineSetter__'', ''hasOwnProperty'',
      ''__lookupGetter__'', ''__lookupSetter__'', ''isPrototypeOf'',
      ''propertyIsEnumerable'', ''toString'', ''valueOf'', ''__proto__'',
      ''toLocaleString'']"

definition array_prototype_keys :: "string list" where
  "array_prototype_keys =
     [''length'', ''constructor'', ''concat'', ''copyWithin'', ''entries'', ''every'',
      ''fill'', ''filter'', ''find'', ''findIndex'', ''forEach'', ''indexOf'', ''join'',
      ''keys'', ''lastIndexOf'', ''map'', ''pop'', ''push'', ''reduce'', ''reduceRight'',
      ''reverse'', ''shift'', ''slice'', ''some'', ''sort'', ''splice'',
      ''toLocaleString'', ''toString'', ''unshift'', ''values'']"

fun proto_value :: "proto \<Rightarrow> jsval" where
  "proto_value ProtoNull = JNull"
| "proto_value ProtoObjectPrototype = JObjectPrototype"
| "proto_value (ProtoCell b) = JRef b"

text \<open>
  A property found on \<^verbatim>\<open>Object.prototype\<close>: \<^verbatim>\<open>__proto__\<close> is an accessor whose getter
  returns the prototype of the object the lookup started from (\<open>p\<close>); the others are
  functions.
\<close>

definition object_prototype_get :: "proto \<Rightarrow> string \<Rightarrow> jsval option" where
  "object_prototype_get p key =
     (if key = ''__proto__'' then Some (proto_value p)
      else if key = ''constructor'' then Some (JFun ''Object'')
      else if key \<in> set object_prototype_keys then Some (JFun (''Object.prototype.'' @ key))
      else None)"

definition array_prototype_get :: "string \<Rightarrow> jsval option" where
  "array_prototype_get key =
     (if key = ''length'' then Some (JNum (Finite 0))
      else if key = ''constructor'' then Some (JFun ''Array'')
      else if key \<in> set array_prototype_keys then Some (JFun (''Array.prototype.'' @ key))
      else None)"

text \<open>An array index is a canonical decimal numeral: digits, no leading zero.\<close>

definition is_digit :: "char \<Rightarrow> bool" where
  "is_digit c = (48 \<le> (of_char c :: nat) \<and> (of_char c :: nat) \<le> 57)"

definition array_index :: "string \<Rightarrow> nat option" where
  "array_index s =
     (if s = [] \<or> \<not> list_all is_digit s \<or> (1 < length s \<and> hd s = CHR ''0'') then None
      else Some (foldl (\<lambda>n c. 10 * n + (of_char c - 48)) 0 s))"

definition array_own_get :: "jsval list \<Rightarrow> string \<Rightarrow> jsval option" where
  "array_own_get xs key =
     (if key = ''length'' then Some (JNum (Finite (of_nat (length xs))))
      else
        (case array_index key of
           None \<Rightarrow> None
         | Some i \<Rightarrow> (if i < length xs then Some (xs ! i) else None)))"

text \<open>
  The lookup along the prototype chain of a target whose prototype is \<open>p\<close>: \<open>None\<close> when
  no object of the chain has the property.
\<close>

definition proto_lookup :: "heap \<Rightarrow> proto \<Rightarrow> string \<Rightarrow> jsval option" where
  "proto_lookup h p key =
     (case p of
        ProtoNull \<Rightarrow> None
      | ProtoObjectPrototype \<Rightarrow> object_prototype_get p key
      | ProtoCell b \<Rightarrow>
          (case cell_at h b of
             None \<Rightarrow> None
           | Some (Obj ps) \<Rightarrow>
               (case map_of ps key of
                  Some v \<Rightarrow> Some v
                | None \<Rightarrow> object_prototype_get p key)
           | Some (Arr xs) \<Rightarrow>
               (case array_own_get xs key of
                  Some v \<Rightarrow> Some v
                | None \<Rightarrow>
                    (case array_prototype_get key of
                       Some v \<Rightarrow> Some v
                     | None \<Rightarrow> object_prototype_get p key))))"

text \<open>
  \<open>lookup h t key = None\<close> is \<^verbatim>\<open>!(key in target)\<close>; \<open>Some v\<close> is \<^verbatim>\<open>key in target\<close> with
  \<^verbatim>\<open>target[key]\<close> being \<open>v\<close>.
\<close>

definition lookup :: "heap \<Rightarrow> target \<Rightarrow> string \<Rightarrow> jsval option" where
  "lookup h t key =
     (case map_of (props t) key of
        Some v \<Rightarrow> Some v
      | None \<Rightarrow> proto_lookup h (proto t) key)"

text \<open>
  Does an assignment to \<open>key\<close>, not an own property, end in the \<^verbatim>\<open>__proto__\<close> setter of
  \<^verbatim>\<open>Object.prototype\<close>?  Only for that key, when no object before \<^verbatim>\<open>Object.prototype\<close> on
  the chain has a property of that name.
\<close>

definition reaches_proto_setter :: "heap \<Rightarrow> proto \<Rightarrow> string \<Rightarrow> bool" where
  "reaches_proto_setter h p key =
     (key = ''__proto__'' \<and>
      (case p of
         ProtoNull \<Rightarrow> False
       | ProtoObjectPrototype \<Rightarrow> True
       | ProtoCell b \<Rightarrow>
           (case cell_at h b of
              None \<Rightarrow> False
            | Some (Obj ps) \<Rightarrow> map_of ps key = None
            | Some (Arr xs) \<Rightarrow> True)))"

text \<open>
  The \<^verbatim>\<open>__proto__\<close> setter: an object or \<^verbatim>\<open>null\<close> becomes the prototype, any other value
  is ignored.  A function never gets here: the global store assigns a clone, which is never
  a function, and the Reactor assigns a value that has passed the type check against the
  current prototype, an object; that case leaves the prototype as it is.
\<close>

fun set_proto :: "proto \<Rightarrow> jsval \<Rightarrow> proto" where
  "set_proto p JNull = ProtoNull"
| "set_proto p JObjectPrototype = ProtoObjectPrototype"
| "set_proto p (JRef b) = ProtoCell b"
| "set_proto p v = p"

text \<open>
  \<^verbatim>\<open>target[key] = v\<close>: an own property is overwritten; an inherited data property, or no
  property at all, makes a new own property; the inherited accessor runs its setter.
\<close>

definition assign :: "heap \<Rightarrow> target \<Rightarrow> string \<Rightarrow> jsval \<Rightarrow> target" where
  "assign h t key v =
     (if map_of (props t) key \<noteq> None then t\<lparr>props := AList.update key v (props t)\<rparr>
      else if reaches_proto_setter h (proto t) key then t\<lparr>proto := set_proto (proto t) v\<rparr>
      else t\<lparr>props := props t @ [(key, v)]\<rparr>)"

section \<open>The browser and the \<^verbatim>\<open>stator\<close> object\<close>

text \<open>
  The environment stator.js runs in: the heap, a clock, the pending timers of
  \<^verbatim>\<open>setTimeout\<close> (handle, callback, time due), the listeners of the \<^verbatim>\<open>state_changed\<close>
  event, the times at which that event was dispatched, and the console.  With it, the
  fields of the \<^verbatim>\<open>stator\<close> object (lines 106-159) and the target of the Proxy that
  \<^verbatim>\<open>create_state\<close> returns.  What a listener does when it is called is a parameter of
  the functions that dispatch the event.
\<close>

datatype callback = DispatchEvent | BoundRender | Listener string

datatype timeout = TimeoutUndefined | TimeoutNull | TimeoutId nat

datatype log_entry =
    LogStator string jsval jsval
  | LogSuppressed int int
  | LogReactor string string jsval jsval
  | ErrorInvalidOption string

record options =
  debounce_ms :: int
  max_suppressed_event_count :: int
  type_check :: bool
  debug :: bool

record world =
  heap :: heap
  clock :: int
  timers :: "(nat \<times> callback \<times> int) list"
  next_timer_id :: nat
  listeners :: "callback list"
  events :: "int list"
  console :: "log_entry list"
  opts :: options
  state_created :: bool
  debounce_timeout :: timeout
  suppressed_event_count :: int
  tracked :: target

definition default_options :: options where
  "default_options =
     \<lparr>debounce_ms = 10, max_suppressed_event_count = 10, type_check = True, debug = False\<rparr>"

text \<open>
  \<^verbatim>\<open>setTimeout\<close> returns a fresh handle, a positive integer in a browser, so a handle is
  truthy; a negative delay counts as zero.  \<^verbatim>\<open>clearTimeout\<close> of anything that is not the
  handle of a pending timer does nothing.
\<close>

definition set_timeout :: "callback \<Rightarrow> int \<Rightarrow> world \<Rightarrow> nat \<times> world" where
  "set_timeout cb ms w =
     (next_timer_id w,
      w\<lparr>timers := timers w @ [(next_timer_id w, cb, clock w + max 0 ms)],
        next_timer_id := Suc (next_timer_id w)\<rparr>)"

definition clear_timeout :: "timeout \<Rightarrow> world \<Rightarrow> world" where
  "clear_timeout t w =
     (case t of
        TimeoutId i \<Rightarrow> w\<lparr>timers := filter (\<lambda>x. fst x \<noteq> i) (timers w)\<rparr>
      | _ \<Rightarrow> w)"

fun timeout_truthy :: "timeout \<Rightarrow> bool" where
  "timeout_truthy (TimeoutId i) = True"
| "timeout_truthy t = False"

text \<open>\<^verbatim>\<open>stator._clear_debounce_timeout\<close> (lines 144-147).\<close>

definition clear_debounce_timeout :: "world \<Rightarrow> world" where
  "clear_debounce_timeout w =
     (clear_timeout (debounce_timeout w) w)\<lparr>debounce_timeout := TimeoutNull\<rparr>"

text \<open>
  \<^verbatim>\<open>stator._dispatch_event\<close> (lines 136-140).  \<^verbatim>\<open>window.dispatchEvent\<close> (line 137) calls
  the listeners of the event one after the other and returns when they have returned; only
  then do lines 138 and 139 run.  What the listeners do is the caller's code: it is the
  parameter \<open>L\<close>, taking the world in which the listeners are called (the event is
  recorded in it) to the world they leave.  A listener may itself write to the state.
  \<open>quiet\<close> listeners leave the world as it is.
\<close>

definition dispatch_event_with :: "(world \<Rightarrow> world) \<Rightarrow> world \<Rightarrow> world" where
  "dispatch_event_with L w =
     (clear_debounce_timeout (L (w\<lparr>events := events w @ [clock w]\<rparr>)))
       \<lparr>suppressed_event_count := 0\<rparr>"

definition quiet :: "world \<Rightarrow> world" where
  "quiet w = w"

definition dispatch_event :: "world \<Rightarrow> world" where
  "dispatch_event w = dispatch_event_with quiet w"

text \<open>\<^verbatim>\<open>_check_type_match\<close> (lines 15-23).\<close>

definition check_type_match :: "jsval \<Rightarrow> jsval \<Rightarrow> string \<Rightarrow> error + unit" where
  "check_type_match a b key =
     (if a \<noteq> JUndefined then
        (if typeof a \<noteq> typeof b then Inl (TypeErrorChange key (typeof a) (typeof b))
         else Inr ())
      else Inr ())"

text \<open>
  The debounce part of the \<^verbatim>\<open>set\<close> trap (lines 69-86), run after the new value has been
  stored.
\<close>

definition suppress_active_timeout :: "world \<Rightarrow> world" where
  "suppress_active_timeout w =
     (if timeout_truthy (debounce_timeout w) then
        (let w1 = clear_debounce_timeout w
         in w1\<lparr>suppressed_event_count := suppressed_event_count w1 + 1\<rparr>)
      else w)"

definition emit_or_schedule_with :: "(world \<Rightarrow> world) \<Rightarrow> world \<Rightarrow> world" where
  "emit_or_schedule_with L w =
     (if max_suppressed_event_count (opts w) \<le> suppressed_event_count w then
        dispatch_event_with L
          (if debug (opts w) then
             w\<lparr>console := console w @
                 [LogSuppressed (suppressed_event_count w) (max_suppressed_event_count (opts w))]\<rparr>
           else w)
      else
        (case set_timeout DispatchEvent (debounce_ms (opts w)) w of
           (i, w1) \<Rightarrow> w1\<lparr>debounce_timeout := TimeoutId i\<rparr>))"

definition emit_or_schedule :: "world \<Rightarrow> world" where
  "emit_or_schedule w = emit_or_schedule_with quiet w"

text \<open>
  The \<^verbatim>\<open>set\<close> trap of the global state (lines 47-89), with what the listeners do when
  the trap dispatches the event.  The result is what the trap throws or returns, with the
  world as the trap leaves it.
\<close>

definition set_trap_with ::
  "(world \<Rightarrow> world) \<Rightarrow> world \<Rightarrow> string \<Rightarrow> jsval \<Rightarrow> (error + bool) \<times> world"
where
  "set_trap_with L w key val =
     (case lookup (heap w) (tracked w) key of
        None \<Rightarrow> (Inl (CannotCreateNewKey key), w)
      | Some oldval \<Rightarrow>
          (if \<not> strict_eq oldval val then
             (let w1 = (if debug (opts w)
                        then w\<lparr>console := console w @ [LogStator key oldval val]\<rparr> else w)
              in
                (case (if type_check (opts w1) then check_type_match oldval val key
                       else Inr ()) of
                   Inl e \<Rightarrow> (Inl e, w1)
                 | Inr u \<Rightarrow>
                     (case clone_obj (heap w1) val of
                        Inl e \<Rightarrow> (Inl e, w1)
                      | Inr (c, h') \<Rightarrow>
                          (let w2 = w1\<lparr>heap := h', tracked := assign h' (tracked w1) key c\<rparr>
                           in (Inr True,
                               emit_or_schedule_with L (suppress_active_timeout w2))))))
           else (Inr True, w)))"

text \<open>The trap on a page whose listeners are quiet.\<close>

definition set_trap :: "world \<Rightarrow> string \<Rightarrow> jsval \<Rightarrow> (error + bool) \<times> world" where
  "set_trap w key val = set_trap_with quiet w key val"

text \<open>The \<^verbatim>\<open>get\<close> trap of the global state (lines 96-103).\<close>

definition get_trap :: "world \<Rightarrow> string \<Rightarrow> error + jsval" where
  "get_trap w key =
     (case lookup (heap w) (tracked w) key of
        Some v \<Rightarrow> Inr v
      | None \<Rightarrow> Inl (AccessToKeyNotSetDuringInitialization key))"

text \<open>
  \<^verbatim>\<open>stator.create_state\<close> (lines 31-105).  The initial state is an object, given by its
  own enumerable properties; \<^verbatim>\<open>_clone_obj\<close> of it is the serialisation of these properties
  parsed again, and the new object is the target of the Proxy.  The flag is set before the
  clone is made.
\<close>

definition create_state :: "world \<Rightarrow> (string \<times> jsval) list \<Rightarrow> (error + unit) \<times> world" where
  "create_state w initial_state =
     (if state_created w then (Inl CannotCreateMoreThanOneGlobalState, w)
      else
        (let w1 = w\<lparr>state_created := True\<rparr>
         in
           (case stringify_props (heap w1) [] initial_state of
              Inl e \<Rightarrow> (Inl e, w1)
            | Inr jps \<Rightarrow>
                (case parse_props (heap w1) jps of
                   (ps, h') \<Rightarrow>
                     (Inr (),
                      w1\<lparr>heap := h', tracked := \<lparr>props = ps, proto = ProtoObjectPrototype\<rparr>\<rparr>)))))"

text \<open>\<^verbatim>\<open>stator.add_listener\<close> (lines 122-128), for one function or an array of them.\<close>

definition add_listener :: "callback list \<Rightarrow> world \<Rightarrow> world" where
  "add_listener fs w = w\<lparr>listeners := listeners w @ fs\<rparr>"

text \<open>The page as the script is loaded: nothing pending, the \<^verbatim>\<open>stator\<close> fields as declared.\<close>

definition initial_world :: world where
  "initial_world =
     \<lparr>heap = [], clock = 0, timers = [], next_timer_id = 1, listeners = [], events = [],
      console = [], opts = default_options, state_created = False,
      debounce_timeout = TimeoutUndefined, suppressed_event_count = 0,
      tracked = \<lparr>props = [], proto = ProtoObjectPrototype\<rparr>\<rparr>"

section \<open>Time and streams of writes\<close>

text \<open>
  A pending timer fires: it leaves the table, the clock is at least its due time, and its
  callback runs, calling the listeners.  A timer that an earlier callback has cleared does
  not fire.
\<close>

definition fire_with :: "(world \<Rightarrow> world) \<Rightarrow> nat \<times> callback \<times> int \<Rightarrow> world \<Rightarrow> world" where
  "fire_with L x w =
     (if x \<in> set (timers w) then
        dispatch_event_with L
          ((clear_timeout (TimeoutId (fst x)) w)\<lparr>clock := max (clock w) (snd (snd x))\<rparr>)
      else w)"

definition fire :: "nat \<times> callback \<times> int \<Rightarrow> world \<Rightarrow> world" where
  "fire x w = fire_with quiet x w"

text \<open>
  Time passes until \<open>t\<close> on a page whose listeners are quiet: the pending timers of
  \<^verbatim>\<open>stator._dispatch_event\<close> that are due by then fire, in the order of their due times.
  The timers of other callbacks belong to the Reactors and do not touch the fields of
  \<^verbatim>\<open>stator\<close>; they are left in the table.
\<close>

definition due_timers :: "int \<Rightarrow> world \<Rightarrow> (nat \<times> callback \<times> int) list" where
  "due_timers t w =
     sort_key (\<lambda>x. snd (snd x))
       (filter (\<lambda>x. fst (snd x) = DispatchEvent \<and> snd (snd x) \<le> t) (timers w))"

definition advance_to :: "int \<Rightarrow> world \<Rightarrow> world" where
  "advance_to t w = (let w1 = fold fire (due_timers t w) w in w1\<lparr>clock := max (clock w1) t\<rparr>)"

text \<open>
  A write is an accepted mutation when the \<^verbatim>\<open>set\<close> trap finds the key, the new value is
  not \<^verbatim>\<open>===\<close> the old one, and the trap returns \<^verbatim>\<open>true\<close>: these are the writes that reach
  the debounce code of lines 69-86.
\<close>

definition accepted :: "world \<Rightarrow> string \<Rightarrow> jsval \<Rightarrow> bool" where
  "accepted w key val =
     (case lookup (heap w) (tracked w) key of
        None \<Rightarrow> False
      | Some oldval \<Rightarrow> \<not> strict_eq oldval val \<and> fst (set_trap w key val) = Inr True)"

text \<open>Writes one after the other, the listeners quiet, with no timer firing in between.\<close>

fun writes :: "world \<Rightarrow> (string \<times> jsval) list \<Rightarrow> world" where
  "writes w [] = w"
| "writes w ((key, val) # kvs) = writes (snd (set_trap w key val)) kvs"

fun writes_accepted :: "world \<Rightarrow> (string \<times> jsval) list \<Rightarrow> bool" where
  "writes_accepted w [] = True"
| "writes_accepted w ((key, val) # kvs) =
     (accepted w key val \<and> writes_accepted (snd (set_trap w key val)) kvs)"

text \<open>
  A stream of writes, each at its time, the listeners quiet: time passes until then, and the
  write is made.
\<close>

fun run_stream :: "world \<Rightarrow> (int \<times> string \<times> jsval) list \<Rightarrow> world" where
  "run_stream w [] = w"
| "run_stream w ((t, key, val) # xs) = run_stream (snd (set_trap (advance_to t w) key val)) xs"

fun stream_accepted :: "world \<Rightarrow> (int \<times> string \<times> jsval) list \<Rightarrow> bool" where
  "stream_accepted w [] = True"
| "stream_accepted w ((t, key, val) # xs) =
     (accepted (advance_to t w) key val
      \<and> stream_accepted (snd (set_trap (advance_to t w) key val)) xs)"

section \<open>The Reactor\<close>

text \<open>
  The arguments of \<^verbatim>\<open>new Reactor(element, options, html_callback)\<close> (lines 183-252).
  \<open>given\<close> holds the own enumerable properties of the options object other than
  \<^verbatim>\<open>state\<close>, in insertion order; \<open>given_state\<close> is the \<^verbatim>\<open>state\<close> property when there is
  one, an object given by its own enumerable properties.  \<^verbatim>\<open>state\<close> is a recognised
  option, so where it stands among the keys makes no difference to the constructor.
\<close>

record reactor_args =
  given :: "(string \<times> jsval) list"
  given_state :: "(string \<times> jsval) list option"

record reactor_options =
  o_should_render :: jsval
  o_updated_html :: jsval
  o_listen_to_global_state :: jsval
  o_state :: "(string \<times> jsval) list"
  o_debug :: jsval

text \<open>
  A Reactor object.  A field the constructor has not assigned yet is \<^verbatim>\<open>undefined\<close>
  (\<open>None\<close> for \<open>ropts\<close> and \<open>data\<close>).  \<open>dom_writes\<close> lists the values assigned to
  \<^verbatim>\<open>node.innerHTML\<close>, \<open>hook_calls\<close> counts the calls of \<^verbatim>\<open>updated_html\<close>: they record
  what the Reactor did and are no fields of the JavaScript object.
\<close>

record reactor =
  render_timeout :: timeout
  element :: "string option"
  node :: "nat option"
  ropts :: "reactor_options option"
  html_callback :: jsval
  data :: "target option"
  old_node_html :: jsval
  force_update :: jsval
  dom_writes :: "jsval list"
  hook_calls :: nat

definition new_object :: reactor where
  "new_object =
     \<lparr>render_timeout = TimeoutUndefined, element = None, node = None, ropts = None,
      html_callback = JUndefined, data = None, old_node_html = JUndefined,
      force_update = JUndefined, dom_writes = [], hook_calls = 0\<rparr>"

text \<open>
  What calling a function of the caller returns, given the Reactor and the page at the time
  of the call: the render callback, \<^verbatim>\<open>should_render\<close> and \<^verbatim>\<open>updated_html\<close> are the
  caller's code.  A callback is taken to return a value and to leave the Reactor and the
  page as they are.  The two defaults (lines 277-280) are known; calling a value that is no
  function throws a TypeError.
\<close>

type_synonym fenv = "string \<Rightarrow> reactor \<Rightarrow> world \<Rightarrow> jsval"

definition call :: "fenv \<Rightarrow> jsval \<Rightarrow> reactor \<Rightarrow> world \<Rightarrow> error + jsval" where
  "call env f r w =
     (case f of
        JFun name \<Rightarrow>
          (if name = ''Reactor.prototype.should_render'' then Inr (JBool True)
           else if name = ''Reactor.prototype.updated_html'' then Inr JUndefined
           else Inr (env name r w))
      | _ \<Rightarrow> Inl (JsTypeError ''not a function''))"

text \<open>\<^verbatim>\<open>Reactor.prototype.render\<close> (lines 258-272).\<close>

definition render :: "fenv \<Rightarrow> reactor \<Rightarrow> world \<Rightarrow> (error + unit) \<times> reactor \<times> world" where
  "render env r w =
     (let w1 = clear_timeout (render_timeout r) w
      in
        (case ropts r of
           None \<Rightarrow> (Inl (JsTypeError ''Cannot read properties of undefined''), r, w1)
         | Some opt \<Rightarrow>
             (case call env (o_should_render opt) r w1 of
                Inl e \<Rightarrow> (Inl e, r, w1)
              | Inr go \<Rightarrow>
                  (if truthy go then
                     (case call env (html_callback r) r w1 of
                        Inl e \<Rightarrow> (Inl e, r, w1)
                      | Inr node_html \<Rightarrow>
                          (if truthy (force_update r) \<or> \<not> strict_eq node_html (old_node_html r)
                           then
                             (let r1 = r\<lparr>dom_writes := dom_writes r @ [node_html],
                                        old_node_html := node_html\<rparr>
                              in
                                (case call env (o_updated_html opt) r1 w1 of
                                   Inl e \<Rightarrow> (Inl e, r1, w1)
                                 | Inr u \<Rightarrow>
                                     (Inr (),
                                      r1\<lparr>hook_calls := Suc (hook_calls r1),
                                         force_update := JBool False\<rparr>,
                                      w1)))
                           else (Inr (), r, w1)))
                   else (Inr (), r, w1)))))"

text \<open>
  The \<^verbatim>\<open>set\<close> trap of a Reactor's state (lines 226-240), with the target it is called
  on.  The trap has no \<^verbatim>\<open>return\<close>: it returns \<^verbatim>\<open>undefined\<close>, which is falsy (an
  assignment in strict-mode code then throws a TypeError, one in sloppy-mode code goes on).
\<close>

definition reactor_set_trap ::
  "reactor \<Rightarrow> target \<Rightarrow> world \<Rightarrow> string \<Rightarrow> jsval \<Rightarrow> (error + bool) \<times> target \<times> reactor \<times> world"
where
  "reactor_set_trap r t w key val =
     (case lookup (heap w) t key of
        None \<Rightarrow> (Inl (CannotCreateNewKey key), t, r, w)
      | Some oldval \<Rightarrow>
          (case ropts r of
             None \<Rightarrow> (Inl (JsTypeError ''Cannot read properties of undefined''), t, r, w)
           | Some opt \<Rightarrow>
               (let w1 = (if truthy (o_debug opt)
                          then w\<lparr>console := console w @
                                   [LogReactor (case element r of None \<Rightarrow> ''undefined'' | Some e \<Rightarrow> e)
                                      key oldval val]\<rparr>
                          else w)
                in
                  (case check_type_match oldval val key of
                     Inl e \<Rightarrow> (Inl e, t, r, w1)
                   | Inr u \<Rightarrow>
                       (let t1 = assign (heap w1) t key val;
                            w2 = clear_timeout (render_timeout r) w1
                        in
                          (case set_timeout BoundRender 10 w2 of
                             (i, w3) \<Rightarrow>
                               (Inr False, t1, r\<lparr>render_timeout := TimeoutId i\<rparr>, w3)))))))"


text \<open>\<^verbatim>\<open>Object.keys(options)\<close> and \<^verbatim>\<open>Object.keys(default_options)\<close> (lines 194-202).\<close>

definition option_keys :: "reactor_args \<Rightarrow> string list" where
  "option_keys args =
     map fst (given args) @ (case given_state args of None \<Rightarrow> [] | Some ps \<Rightarrow> [''state''])"

definition default_option_keys :: "string list" where
  "default_option_keys =
     [''should_render'', ''updated_html'', ''listen_to_global_state'', ''state'', ''debug'']"

definition invalid_options :: "reactor_args \<Rightarrow> string list" where
  "invalid_options args = filter (\<lambda>k. k \<notin> set default_option_keys) (option_keys args)"

text \<open>\<^verbatim>\<open>Object.assign(default_options, options)\<close> (line 208), for options all recognised.\<close>

definition assign_options :: "reactor_args \<Rightarrow> reactor_options" where
  "assign_options args =
     \<lparr>o_should_render =
        (case map_of (given args) ''should_render'' of
           Some v \<Rightarrow> v | None \<Rightarrow> JFun ''Reactor.prototype.should_render''),
      o_updated_html =
        (case map_of (given args) ''updated_html'' of
           Some v \<Rightarrow> v | None \<Rightarrow> JFun ''Reactor.prototype.updated_html''),
      o_listen_to_global_state =
        (case map_of (given args) ''listen_to_global_state'' of
           Some v \<Rightarrow> v | None \<Rightarrow> JBool True),
      o_state = (case given_state args of Some ps \<Rightarrow> ps | None \<Rightarrow> []),
      o_debug =
        (case map_of (given args) ''debug'' of Some v \<Rightarrow> v | None \<Rightarrow> JBool False)\<rparr>"

text \<open>
  The constructor (lines 183-252).  \<open>nodes\<close> is what \<^verbatim>\<open>document.querySelectorAll(el)\<close>
  returns.  The result is the error thrown, or the object as the constructor leaves it when
  it returns; the world is the page afterwards in both cases.
\<close>

definition Reactor ::
  "fenv \<Rightarrow> world \<Rightarrow> nat list \<Rightarrow> string \<Rightarrow> reactor_args \<Rightarrow> jsval \<Rightarrow> (error + reactor) \<times> world"
where
  "Reactor env w nodes el args cb =
     (let r0 = new_object\<lparr>render_timeout := TimeoutNull\<rparr>
      in
        (if length nodes \<noteq> 1 then (Inl (QuerySelectorMatched el (length nodes)), w)
         else
           (let r1 = r0\<lparr>element := Some el, node := Some (hd nodes)\<rparr>
            in
              (if invalid_options args \<noteq> [] then
                 (Inr r1, w\<lparr>console := console w @ map ErrorInvalidOption (invalid_options args)\<rparr>)
               else
                 (let r2 = r1\<lparr>ropts := Some (assign_options args)\<rparr>
                  in
                    (if \<not> truthy cb \<or> typeof cb \<noteq> TyFunction then (Inl NoRenderCallback, w)
                     else
                       (let r3 = r2\<lparr>html_callback := cb\<rparr>;
                            w1 = (if truthy (o_listen_to_global_state (assign_options args))
                                  then add_listener [BoundRender] w else w)
                        in
                          (case stringify_props (heap w1) [] (o_state (assign_options args)) of
                             Inl e \<Rightarrow> (Inl e, w1)
                           | Inr jps \<Rightarrow>
                               (case parse_props (heap w1) jps of
                                  (ps, h') \<Rightarrow>
                                    (let r4 = r3\<lparr>data := Some \<lparr>props = ps, proto = ProtoObjectPrototype\<rparr>\<rparr>
                                     in
                                       (case render env r4 (w1\<lparr>heap := h'\<rparr>) of
                                          (Inl e, r5, w2) \<Rightarrow> (Inl e, w2)
                                        | (Inr u, r5, w2) \<Rightarrow> (Inr r5, w2))))))))))))"

section \<open>Vocabulary of the statements\<close>

text \<open>\<open>h2\<close> still holds every object that \<open>h\<close> holds at address \<open>n\<close> or above.\<close>

definition keeps_from :: "nat \<Rightarrow> heap \<Rightarrow> heap \<Rightarrow> bool" where
  "keeps_from n h h2 = (length h \<le> length h2 \<and> (\<forall>a\<in>set [n..<length h]. h2 ! a = h ! a))"

text \<open>
  The world an accepted write hands to the debounce code: the change logged when
  \<^verbatim>\<open>debug\<close> is on, the clone stored (lines 57-67).
\<close>

definition stored :: "world \<Rightarrow> string \<Rightarrow> jsval \<Rightarrow> world" where
  "stored w key val =
     (case lookup (heap w) (tracked w) key of
        None \<Rightarrow> w
      | Some oldval \<Rightarrow>
          (let w1 = (if debug (opts w)
                     then w\<lparr>console := console w @ [LogStator key oldval val]\<rparr> else w)
           in
             (case clone_obj (heap w1) val of
                Inl e \<Rightarrow> w1
              | Inr (c, h') \<Rightarrow> w1\<lparr>heap := h', tracked := assign h' (tracked w1) key c\<rparr>)))"

text \<open>
  \<open>later s s'\<close>: from \<open>s\<close> to \<open>s'\<close> the clock has not gone back, the options are the same,
  events have only been added, each stamped with a time between the two clocks, and the
  counter has not become negative.
\<close>

definition later :: "world \<Rightarrow> world \<Rightarrow> bool" where
  "later s s' =
     (clock s \<le> clock s' \<and> opts s' = opts s
      \<and> (\<exists>ext. events s' = events s @ ext \<and> (\<forall>e\<in>set ext. clock s \<le> e \<and> e \<le> clock s'))
      \<and> (0 \<le> suppressed_event_count s \<longrightarrow> 0 \<le> suppressed_event_count s'))"

text \<open>
  \<open>armed N D B s\<close>: the handle names a pending timer of \<^verbatim>\<open>stator._dispatch_event\<close>, the
  counter is below \<open>N\<close>, and the timer is due early enough: even if every further write
  came just before its timer, the last timer would be due by \<open>B\<close>.
\<close>

definition armed :: "int \<Rightarrow> int \<Rightarrow> int \<Rightarrow> world \<Rightarrow> bool" where
  "armed N D B s =
     (\<exists>i d. debounce_timeout s = TimeoutId i \<and> (i, DispatchEvent, d) \<in> set (timers s)
        \<and> 0 \<le> suppressed_event_count s \<and> suppressed_event_count s < N
        \<and> d + (N - 1 - suppressed_event_count s) * D \<le> B)"

text \<open>\<open>primed\<close>: armed, and the timer is not yet due.\<close>

definition primed :: "int \<Rightarrow> int \<Rightarrow> int \<Rightarrow> world \<Rightarrow> bool" where
  "primed N D B s =
     (\<exists>i d. debounce_timeout s = TimeoutId i \<and> (i, DispatchEvent, d) \<in> set (timers s)
        \<and> 0 \<le> suppressed_event_count s \<and> suppressed_event_count s < N
        \<and> d + (N - 1 - suppressed_event_count s) * D \<le> B \<and> clock s < d)"

text \<open>
  \<open>holding N m s\<close>: a timer counts as pending, and the counter is at least \<open>m\<close> and below
  \<open>N\<close>.
\<close>

definition holding :: "int \<Rightarrow> int \<Rightarrow> world \<Rightarrow> bool" where
  "holding N m s =
     (timeout_truthy (debounce_timeout s) \<and> m \<le> suppressed_event_count s
      \<and> suppressed_event_count s < N)"

text \<open>
  The callbacks look at the global state, the Reactor's own state and the heap only: what
  they return does not depend on the timers, on the cached output or on the other fields
  that \<^verbatim>\<open>render\<close> itself changes.
\<close>

definition looks_at_state_only :: "fenv \<Rightarrow> bool" where
  "looks_at_state_only env =
     (\<forall>f a u b v. data a = data b \<and> heap u = heap v \<and> tracked u = tracked v
        \<longrightarrow> env f a u = env f b v)"

section \<open>Worlds used as examples\<close>

text \<open>The page after \<^verbatim>\<open>stator.create_state({count: 0})\<close>, with the options as shipped.\<close>

definition example_world :: world where
  "example_world = snd (create_state initial_world [(''count'', JNum (Finite 0))])"

text \<open>
  The caller holds the array \<^verbatim>\<open>[1]\<close> (address 0) and has called
  \<^verbatim>\<open>stator.create_state({list: null})\<close>.
\<close>

definition list_world :: world where
  "list_world =
     snd (create_state (initial_world\<lparr>heap := [Arr [JNum (Finite 1)]]\<rparr>) [(''list'', JNull)])"

text \<open>The example one accepted write later: a timer is pending.\<close>

definition pending_world :: world where
  "pending_world = snd (set_trap example_world ''count'' (JNum (Finite 1)))"

text \<open>The example with \<^verbatim>\<open>stator.options.type_check = false\<close>.\<close>

definition unchecked_world :: world where
  "unchecked_world = example_world\<lparr>opts := (opts example_world)\<lparr>type_check := False\<rparr>\<rparr>"

text \<open>The example with \<^verbatim>\<open>stator.options.max_suppressed_event_count = 1\<close>, and one write later.\<close>

definition hasty_world :: world where
  "hasty_world = example_world\<lparr>opts := (opts example_world)\<lparr>max_suppressed_event_count := 1\<rparr>\<rparr>"

definition hasty_world1 :: world where
  "hasty_world1 = snd (set_trap hasty_world ''count'' (JNum (Finite 1)))"

text \<open>
  A listener that does \<^verbatim>\<open>state.count = 7\<close>, and the page on which the listeners are
  called when the timer of \<open>pending_world\<close> fires at time 10: the timer has left the
  table, the event is recorded, and \<^verbatim>\<open>stator._debounce_timeout\<close> still holds the handle
  of the timer that has fired.
\<close>

definition rewriting_listener :: "world \<Rightarrow> world" where
  "rewriting_listener w = snd (set_trap w ''count'' (JNum (Finite 7)))"

definition listener_entry :: world where
  "listener_entry =
     (clear_timeout (TimeoutId 1) pending_world)\<lparr>clock := 10, events := [10]\<rparr>"

text \<open>
  A page whose script holds the array \<^verbatim>\<open>[1]\<close> (address 0), a render callback \<^verbatim>\<open>view\<close>
  that returns the same markup whenever it is called, and the Reactor that
  \<^verbatim>\<open>new Reactor('#app', {state: {n: 0, items: null}}, view)\<close> makes on it, before and
  after its first render.  \<open>bad_args\<close> are options with two keys that are no options.
\<close>

definition example_env :: fenv where
  "example_env name r w = JStr ''<b>hello</b>''"

definition example_args :: reactor_args where
  "example_args =
     \<lparr>given = [], given_state = Some [(''n'', JNum (Finite 0)), (''items'', JNull)]\<rparr>"

definition bad_args :: reactor_args where
  "bad_args = \<lparr>given = [(''colour'', JStr ''red''), (''debug'', JBool True), (''size'', JNum (Finite 3))],
                given_state = None\<rparr>"

definition page :: world where
  "page = initial_world\<lparr>heap := [Arr [JNum (Finite 1)]]\<rparr>"

definition example_target :: target where
  "example_target =
     \<lparr>props = [(''n'', JNum (Finite 0)), (''items'', JNull)], proto = ProtoObjectPrototype\<rparr>"

definition example_opts :: reactor_options where
  "example_opts = \<lparr>o_should_render = JFun ''Reactor.prototype.should_render'',
      o_updated_html = JFun ''Reactor.prototype.updated_html'',
      o_listen_to_global_state = JBool True,
      o_state = [(''n'', JNum (Finite 0)), (''items'', JNull)], o_debug = JBool False\<rparr>"

definition unrendered_reactor :: reactor where
  "unrendered_reactor =
     \<lparr>render_timeout = TimeoutNull, element = Some ''#app'', node = Some 0,
      ropts = Some example_opts, html_callback = JFun ''view'',
      data = Some example_target,
      old_node_html = JUndefined, force_update = JUndefined,
      dom_writes = [], hook_calls = 0\<rparr>"

definition example_reactor :: reactor where
  "example_reactor =
     unrendered_reactor\<lparr>old_node_html := JStr ''<b>hello</b>'', force_update := JBool False,
       dom_writes := [JStr ''<b>hello</b>''], hook_calls := 1\<rparr>"

definition reactor_world :: world where
  "reactor_world = page\<lparr>listeners := [BoundRender]\<rparr>"

text \<open>
  The Reactor of the example after \<^verbatim>\<open>reactor.state.n = 7\<close>: a render is pending, due at
  time 10.
\<close>

definition waiting_target :: target where
  "waiting_target =
     \<lparr>props = [(''n'', JNum (Finite 7)), (''items'', JNull)], proto = ProtoObjectPrototype\<rparr>"

definition waiting_reactor :: reactor where
  "waiting_reactor = example_reactor\<lparr>render_timeout := TimeoutId 1\<rparr>"

definition waiting_world :: world where
  "waiting_world = reactor_world\<lparr>timers := [(1, BoundRender, 10)], next_timer_id := 2\<rparr>"

section \<open>The copy made by \<^verbatim>\<open>_clone_obj\<close>\<close>

lemma parse_extends:
  "\<exists>ext. snd (parse h j) = h @ ext"
  "\<exists>ext. snd (parse_elems h js) = h @ ext"
  "\<exists>ext. snd (parse_props h jps) = h @ ext"
proof (induction h j and h js and h jps rule: parse_parse_elems_parse_props.induct)
  case (5 h js)
  then show ?case by (auto split: prod.splits)
next
  case (6 h jps)
  then show ?case by (auto split: prod.splits)
next
  case (8 h j js)
  then show ?case by (fastforce split: prod.splits)
next
  case (10 h k j jps)
  then show ?case by (fastforce split: prod.splits)
qed simp_all

lemma parse_length:
  "length h \<le> length (snd (parse h j))"
  "length h \<le> length (snd (parse_elems h js))"
  "length h \<le> length (snd (parse_props h jps))"
  using parse_extends(1)[of h j] parse_extends(2)[of h js] parse_extends(3)[of h jps]
  by auto

lemma keeps_from_prefix:
  assumes "keeps_from n (h1 @ ext) h2"
  shows "keeps_from n h1 h2"
  using assms by (auto simp: keeps_from_def nth_append)

lemma keeps_from_later:
  assumes "keeps_from n h h2" and "n \<le> m"
  shows "keeps_from m h h2"
  using assms by (auto simp: keeps_from_def)

lemma roundtrip:
  "\<forall>v h' st h2. parse h j = (v, h') \<longrightarrow> (\<forall>a\<in>set st. a < length h \<or> length h' \<le> a)
      \<longrightarrow> keeps_from (length h) h' h2 \<longrightarrow> stringify h2 st v = Inr (Some j)"
  "\<forall>vs h' st h2. parse_elems h js = (vs, h') \<longrightarrow> (\<forall>a\<in>set st. a < length h \<or> length h' \<le> a)
      \<longrightarrow> keeps_from (length h) h' h2 \<longrightarrow> stringify_elems h2 st vs = Inr js"
  "\<forall>ps h' st h2. parse_props h jps = (ps, h') \<longrightarrow> (\<forall>a\<in>set st. a < length h \<or> length h' \<le> a)
      \<longrightarrow> keeps_from (length h) h' h2 \<longrightarrow> stringify_props h2 st ps = Inr jps"
proof (induction h j and h js and h jps rule: parse_parse_elems_parse_props.induct)
  case (5 h js)
  show ?case
  proof (intro allI impI)
    fix v h' st h2
    assume p: "parse h (JsonArr js) = (v, h')"
      and st: "\<forall>a\<in>set st. a < length h \<or> length h' \<le> a"
      and k: "keeps_from (length h) h' h2"
    obtain vs h1 where e: "parse_elems h js = (vs, h1)" by (cases "parse_elems h js")
    have v: "v = JRef (length h1)" and h': "h' = h1 @ [Arr vs]"
      using p e by simp_all
    have len: "length h \<le> length h1"
      using parse_length(2)[of h js] e by simp
    have a1: "length h1 < length h2" using k by (simp add: keeps_from_def h')
    have a2: "length h1 \<notin> set st" using st len by (auto simp: h')
    have cell: "h2 ! length h1 = Arr vs"
      using k len by (simp add: keeps_from_def h')
    have st': "\<forall>a\<in>set (length h1 # st). a < length h \<or> length h1 \<le> a"
      using st by (auto simp: h')
    have k': "keeps_from (length h) h1 h2"
      using k unfolding h' by (rule keeps_from_prefix)
    have "stringify_elems h2 (length h1 # st) vs = Inr js"
      using 5 e st' k' by blast
    then show "stringify h2 st v = Inr (Some (JsonArr js))"
      using a1 a2 cell by (simp add: v)
  qed
next
  case (6 h jps)
  show ?case
  proof (intro allI impI)
    fix v h' st h2
    assume p: "parse h (JsonObj jps) = (v, h')"
      and st: "\<forall>a\<in>set st. a < length h \<or> length h' \<le> a"
      and k: "keeps_from (length h) h' h2"
    obtain ps h1 where e: "parse_props h jps = (ps, h1)" by (cases "parse_props h jps")
    have v: "v = JRef (length h1)" and h': "h' = h1 @ [Obj ps]"
      using p e by simp_all
    have len: "length h \<le> length h1"
      using parse_length(3)[of h jps] e by simp
    have a1: "length h1 < length h2" using k by (simp add: keeps_from_def h')
    have a2: "length h1 \<notin> set st" using st len by (auto simp: h')
    have cell: "h2 ! length h1 = Obj ps"
      using k len by (simp add: keeps_from_def h')
    have st': "\<forall>a\<in>set (length h1 # st). a < length h \<or> length h1 \<le> a"
      using st by (auto simp: h')
    have k': "keeps_from (length h) h1 h2"
      using k unfolding h' by (rule keeps_from_prefix)
    have "stringify_props h2 (length h1 # st) ps = Inr jps"
      using 6 e st' k' by blast
    then show "stringify h2 st v = Inr (Some (JsonObj jps))"
      using a1 a2 cell by (simp add: v)
  qed
next
  case (8 h j js)
  show ?case
  proof (intro allI impI)
    fix vs h' st h2
    assume p: "parse_elems h (j # js) = (vs, h')"
      and st: "\<forall>a\<in>set st. a < length h \<or> length h' \<le> a"
      and k: "keeps_from (length h) h' h2"
    obtain v h1 where e1: "parse h j = (v, h1)" by (cases "parse h j")
    obtain vs' h2' where e2: "parse_elems h1 js = (vs', h2')" by (cases "parse_elems h1 js")
    have vs: "vs = v # vs'" and h': "h' = h2'" using p e1 e2 by simp_all
    have l1: "length h \<le> length h1" using parse_length(1)[of h j] e1 by simp
    have l2: "length h1 \<le> length h2'" using parse_length(2)[of h1 js] e2 by simp
    obtain ext where ext: "h2' = h1 @ ext" using parse_extends(2)[of h1 js] e2 by auto
    have st1: "\<forall>a\<in>set st. a < length h \<or> length h1 \<le> a" using st l2 h' by auto
    have k1: "keeps_from (length h) h1 h2"
      using k unfolding h' ext by (rule keeps_from_prefix)
    have s1: "stringify h2 st v = Inr (Some j)"
      using "8.IH"(1) e1 st1 k1 by blast
    have st2: "\<forall>a\<in>set st. a < length h1 \<or> length h2' \<le> a" using st l1 h' by auto
    have k2: "keeps_from (length h1) h2' h2"
      using k l1 unfolding h' by (rule keeps_from_later)
    have s2: "stringify_elems h2 st vs' = Inr js"
      using "8.IH"(2)[OF e1[symmetric]] e2 st2 k2 by blast
    show "stringify_elems h2 st vs = Inr (j # js)"
      using s1 s2 by (simp add: vs)
  qed
next
  case (10 h key j jps)
  show ?case
  proof (intro allI impI)
    fix ps h' st h2
    assume p: "parse_props h ((key, j) # jps) = (ps, h')"
      and st: "\<forall>a\<in>set st. a < length h \<or> length h' \<le> a"
      and k: "keeps_from (length h) h' h2"
    obtain v h1 where e1: "parse h j = (v, h1)" by (cases "parse h j")
    obtain ps' h2' where e2: "parse_props h1 jps = (ps', h2')" by (cases "parse_props h1 jps")
    have ps: "ps = (key, v) # ps'" and h': "h' = h2'" using p e1 e2 by simp_all
    have l1: "length h \<le> length h1" using parse_length(1)[of h j] e1 by simp
    have l2: "length h1 \<le> length h2'" using parse_length(3)[of h1 jps] e2 by simp
    obtain ext where ext: "h2' = h1 @ ext" using parse_extends(3)[of h1 jps] e2 by auto
    have st1: "\<forall>a\<in>set st. a < length h \<or> length h1 \<le> a" using st l2 h' by auto
    have k1: "keeps_from (length h) h1 h2"
      using k unfolding h' ext by (rule keeps_from_prefix)
    have s1: "stringify h2 st v = Inr (Some j)"
      using "10.IH"(1) e1 st1 k1 by blast
    have st2: "\<forall>a\<in>set st. a < length h1 \<or> length h2' \<le> a" using st l1 h' by auto
    have k2: "keeps_from (length h1) h2' h2"
      using k l1 unfolding h' by (rule keeps_from_later)
    have s2: "stringify_props h2 st ps' = Inr jps"
      using "10.IH"(2)[OF e1[symmetric]] e2 st2 k2 by blast
    show "stringify_props h2 st ps = Inr ((key, j) # jps)"
      using s1 s2 by (simp add: ps)
  qed
qed auto


lemma clone_obj_content:
  assumes "clone_obj h v = Inr (c, h')" and "keeps_from (length h) h' h2"
  shows "stringify h2 [] c = stringify h [] v"
proof (cases "v = JUndefined")
  case True
  then show ?thesis using assms by (simp add: clone_obj_def)
next
  case False
  then obtain j where j: "stringify h [] v = Inr (Some j)" and p: "parse h j = (c, h')"
    using assms(1) by (auto simp: clone_obj_def split: sum.splits option.splits)
  have "stringify h2 [] c = Inr (Some j)"
    using roundtrip(1)[of h j] p assms(2) by simp
  then show ?thesis using j by simp
qed

section \<open>The \<^verbatim>\<open>set\<close> trap of the global state, case by case\<close>

lemma dispatch_event_unfold:
  "dispatch_event w =
     (clear_debounce_timeout (w\<lparr>events := events w @ [clock w]\<rparr>))
       \<lparr>suppressed_event_count := 0\<rparr>"
  by (simp add: dispatch_event_def dispatch_event_with_def quiet_def)

lemma emit_or_schedule_unfold:
  "emit_or_schedule w =
     (if max_suppressed_event_count (opts w) \<le> suppressed_event_count w then
        dispatch_event
          (if debug (opts w) then
             w\<lparr>console := console w @
                 [LogSuppressed (suppressed_event_count w) (max_suppressed_event_count (opts w))]\<rparr>
           else w)
      else
        (case set_timeout DispatchEvent (debounce_ms (opts w)) w of
           (i, w1) \<Rightarrow> w1\<lparr>debounce_timeout := TimeoutId i\<rparr>))"
  by (simp add: emit_or_schedule_def emit_or_schedule_with_def dispatch_event_def)

lemma set_trap_unfold:
  "set_trap w key val =
     (case lookup (heap w) (tracked w) key of
        None \<Rightarrow> (Inl (CannotCreateNewKey key), w)
      | Some oldval \<Rightarrow>
          (if \<not> strict_eq oldval val then
             (let w1 = (if debug (opts w)
                        then w\<lparr>console := console w @ [LogStator key oldval val]\<rparr> else w)
              in
                (case (if type_check (opts w1) then check_type_match oldval val key
                       else Inr ()) of
                   Inl e \<Rightarrow> (Inl e, w1)
                 | Inr u \<Rightarrow>
                     (case clone_obj (heap w1) val of
                        Inl e \<Rightarrow> (Inl e, w1)
                      | Inr (c, h') \<Rightarrow>
                          (let w2 = w1\<lparr>heap := h', tracked := assign h' (tracked w1) key c\<rparr>
                           in (Inr True, emit_or_schedule (suppress_active_timeout w2))))))
           else (Inr True, w)))"
  unfolding set_trap_def set_trap_with_def emit_or_schedule_def by (rule refl)

lemma fire_unfold:
  "fire x w =
     (if x \<in> set (timers w) then
        dispatch_event
          ((clear_timeout (TimeoutId (fst x)) w)\<lparr>clock := max (clock w) (snd (snd x))\<rparr>)
      else w)"
  by (simp add: fire_def fire_with_def dispatch_event_def)

lemma example_world_eq:
  "example_world = initial_world\<lparr>state_created := True,
      tracked := \<lparr>props = [(''count'', JNum (Finite 0))], proto = ProtoObjectPrototype\<rparr>\<rparr>"
  by (simp add: example_world_def create_state_def initial_world_def)

lemma list_world_eq:
  "list_world = initial_world\<lparr>heap := [Arr [JNum (Finite 1)]], state_created := True,
      tracked := \<lparr>props = [(''list'', JNull)], proto = ProtoObjectPrototype\<rparr>\<rparr>"
  by (simp add: list_world_def create_state_def initial_world_def)

lemma lookup_own:
  "map_of (props t) key = Some old \<Longrightarrow> lookup h t key = Some old"
  by (simp add: lookup_def)

lemma lookup_assign_own:
  assumes "map_of (props t) key = Some old"
  shows "lookup h2 (assign h t key c) key = Some c"
  using assms by (simp add: lookup_def assign_def update_conv')


lemma set_trap_unknown_key:
  assumes "lookup (heap w) (tracked w) key = None"
  shows "set_trap w key v = (Inl (CannotCreateNewKey key), w)"
  using assms by (simp add: set_trap_unfold)

lemma set_trap_same:
  assumes "lookup (heap w) (tracked w) key = Some old" and "strict_eq old v"
  shows "set_trap w key v = (Inr True, w)"
  using assms by (simp add: set_trap_unfold)

lemma set_trap_type_mismatch:
  assumes "type_check (opts w)"
    and "lookup (heap w) (tracked w) key = Some old"
    and "old \<noteq> JUndefined"
    and "typeof old \<noteq> typeof v"
  shows "set_trap w key v =
     (Inl (TypeErrorChange key (typeof old) (typeof v)),
      if debug (opts w) then w\<lparr>console := console w @ [LogStator key old v]\<rparr> else w)"
proof -
  have ne: "\<not> strict_eq old v"
    using assms(4) by (auto simp: strict_eq_def)
  show ?thesis
    using assms ne by (simp add: set_trap_unfold check_type_match_def Let_def)
qed

lemma accepted_set_trap:
  assumes "accepted w key v"
  shows "set_trap w key v = (Inr True, emit_or_schedule (suppress_active_timeout (stored w key v)))"
  using assms
  by (auto simp: accepted_def set_trap_unfold stored_def Let_def
           split: option.splits sum.splits if_splits prod.splits)

lemma stored_fields:
  "opts (stored w key v) = opts w"
  "clock (stored w key v) = clock w"
  "timers (stored w key v) = timers w"
  "next_timer_id (stored w key v) = next_timer_id w"
  "events (stored w key v) = events w"
  "debounce_timeout (stored w key v) = debounce_timeout w"
  "suppressed_event_count (stored w key v) = suppressed_event_count w"
  "listeners (stored w key v) = listeners w"
  by (auto simp: stored_def Let_def split: option.splits sum.splits prod.splits)

lemma clear_timeout_falsy:
  "\<not> timeout_truthy t \<Longrightarrow> clear_timeout t w = w"
  by (cases t) (simp_all add: clear_timeout_def)

lemma clear_timeout_stored:
  "timers (clear_timeout t (stored w key v)) = timers (clear_timeout t w)"
  by (cases t) (simp_all add: clear_timeout_def stored_fields)

lemma on_change_dispatch:
  assumes "max_suppressed_event_count (opts u)
             \<le> (if timeout_truthy (debounce_timeout u) then suppressed_event_count u + 1
                 else suppressed_event_count u)"
  shows "events (emit_or_schedule (suppress_active_timeout u)) = events u @ [clock u]"
    and "timers (emit_or_schedule (suppress_active_timeout u))
           = timers (clear_timeout (debounce_timeout u) u)"
    and "debounce_timeout (emit_or_schedule (suppress_active_timeout u)) = TimeoutNull"
    and "suppressed_event_count (emit_or_schedule (suppress_active_timeout u)) = 0"
    and "next_timer_id (emit_or_schedule (suppress_active_timeout u)) = next_timer_id u"
    and "clock (emit_or_schedule (suppress_active_timeout u)) = clock u"
  using assms
  by (cases "debounce_timeout u";
      simp add: emit_or_schedule_unfold suppress_active_timeout_def dispatch_event_unfold
        clear_debounce_timeout_def clear_timeout_def Let_def)+

lemma on_change_schedule:
  assumes "\<not> max_suppressed_event_count (opts u)
             \<le> (if timeout_truthy (debounce_timeout u) then suppressed_event_count u + 1
                 else suppressed_event_count u)"
  shows "events (emit_or_schedule (suppress_active_timeout u)) = events u"
    and "timers (emit_or_schedule (suppress_active_timeout u))
           = timers (clear_timeout (debounce_timeout u) u)
             @ [(next_timer_id u, DispatchEvent, clock u + max 0 (debounce_ms (opts u)))]"
    and "debounce_timeout (emit_or_schedule (suppress_active_timeout u))
           = TimeoutId (next_timer_id u)"
    and "suppressed_event_count (emit_or_schedule (suppress_active_timeout u))
           = (if timeout_truthy (debounce_timeout u) then suppressed_event_count u + 1
              else suppressed_event_count u)"
    and "next_timer_id (emit_or_schedule (suppress_active_timeout u)) = Suc (next_timer_id u)"
    and "clock (emit_or_schedule (suppress_active_timeout u)) = clock u"
  using assms
  by (cases "debounce_timeout u";
      simp add: emit_or_schedule_unfold suppress_active_timeout_def set_timeout_def
        clear_debounce_timeout_def clear_timeout_def Let_def)+

lemma on_change_frame:
  "opts (emit_or_schedule (suppress_active_timeout u)) = opts u"
  "heap (emit_or_schedule (suppress_active_timeout u)) = heap u"
  "tracked (emit_or_schedule (suppress_active_timeout u)) = tracked u"
  by (cases "debounce_timeout u";
      simp add: emit_or_schedule_unfold suppress_active_timeout_def set_timeout_def
        dispatch_event_unfold clear_debounce_timeout_def clear_timeout_def Let_def)+

lemma example_world_write:
  "set_trap example_world ''count'' (JNum (Finite 1)) =
     (Inr True,
      example_world\<lparr>tracked := \<lparr>props = [(''count'', JNum (Finite 1))], proto = ProtoObjectPrototype\<rparr>,
        timers := [(1, DispatchEvent, 10)], next_timer_id := 2,
        debounce_timeout := TimeoutId 1\<rparr>)"
  by (simp add: example_world_eq initial_world_def default_options_def set_trap_unfold lookup_def
        strict_eq_def check_type_match_def clone_obj_def assign_def
        suppress_active_timeout_def emit_or_schedule_unfold set_timeout_def Let_def)

lemma list_world_write:
  "set_trap list_world ''list'' (JRef 0) =
     (Inr True,
      list_world\<lparr>heap := [Arr [JNum (Finite 1)], Arr [JNum (Finite 1)]],
        tracked := \<lparr>props = [(''list'', JRef 1)], proto = ProtoObjectPrototype\<rparr>,
        timers := [(1, DispatchEvent, 10)], next_timer_id := 2,
        debounce_timeout := TimeoutId 1\<rparr>)"
  by (simp add: list_world_eq initial_world_def default_options_def set_trap_unfold lookup_def
        strict_eq_def check_type_match_def clone_obj_def assign_def
        suppress_active_timeout_def emit_or_schedule_unfold set_timeout_def Let_def)

lemma pending_world_eq:
  "pending_world = example_world\<lparr>tracked := \<lparr>props = [(''count'', JNum (Finite 1))], proto = ProtoObjectPrototype\<rparr>,
        timers := [(1, DispatchEvent, 10)], next_timer_id := 2,
        debounce_timeout := TimeoutId 1\<rparr>"
  by (simp add: pending_world_def example_world_write)

lemmas eval_defs =
  set_trap_unfold get_trap_def lookup_def strict_eq_def check_type_match_def clone_obj_def
  assign_def suppress_active_timeout_def emit_or_schedule_unfold set_timeout_def
  clear_debounce_timeout_def clear_timeout_def dispatch_event_unfold advance_to_def
  due_timers_def fire_unfold accepted_def initial_world_def default_options_def Let_def

lemma hasty_world_eq:
  "hasty_world = initial_world\<lparr>opts := default_options\<lparr>max_suppressed_event_count := 1\<rparr>,
      state_created := True,
      tracked := \<lparr>props = [(''count'', JNum (Finite 0))], proto = ProtoObjectPrototype\<rparr>\<rparr>"
  by (simp add: hasty_world_def example_world_eq initial_world_def)

lemma hasty_first:
  "advance_to 0 hasty_world = hasty_world"
  "accepted hasty_world ''count'' (JNum (Finite 1))"
  "snd (set_trap hasty_world ''count'' (JNum (Finite 1)))
     = hasty_world\<lparr>tracked := \<lparr>props = [(''count'', JNum (Finite 1))], proto = ProtoObjectPrototype\<rparr>,
         timers := [(1, DispatchEvent, 10)], next_timer_id := 2,
         debounce_timeout := TimeoutId 1\<rparr>"
  by (simp_all add: hasty_world_eq eval_defs)

lemma hasty_world1_eq:
  "hasty_world1 = initial_world\<lparr>opts := default_options\<lparr>max_suppressed_event_count := 1\<rparr>,
      state_created := True,
      tracked := \<lparr>props = [(''count'', JNum (Finite 1))], proto = ProtoObjectPrototype\<rparr>,
      timers := [(1, DispatchEvent, 10)], next_timer_id := 2,
      debounce_timeout := TimeoutId 1\<rparr>"
  unfolding hasty_world1_def hasty_first(3) by (simp add: hasty_world_eq)

lemma hasty_second:
  "advance_to 4 hasty_world1 = hasty_world1\<lparr>clock := 4\<rparr>"
  "accepted (hasty_world1\<lparr>clock := 4\<rparr>) ''count'' (JNum (Finite 2))"
  "events (snd (set_trap (hasty_world1\<lparr>clock := 4\<rparr>) ''count'' (JNum (Finite 2)))) = [4]"
  "timers (snd (set_trap (hasty_world1\<lparr>clock := 4\<rparr>) ''count'' (JNum (Finite 2)))) = []"
  "clock (snd (set_trap (hasty_world1\<lparr>clock := 4\<rparr>) ''count'' (JNum (Finite 2)))) = 4"
  "accepted hasty_world1 ''count'' (JNum (Finite 2))"
  "events (snd (set_trap hasty_world1 ''count'' (JNum (Finite 2)))) = [0]"
  by (simp_all add: hasty_world1_eq eval_defs)

lemma accepted_set_trap_with:
  assumes "accepted w key v"
  shows "set_trap_with L w key v
           = (Inr True, emit_or_schedule_with L (suppress_active_timeout (stored w key v)))"
  using assms
  by (auto simp: accepted_def set_trap_unfold set_trap_with_def stored_def Let_def
           split: option.splits sum.splits if_splits prod.splits)

lemma clear_timeout_filter:
  "timers (clear_timeout t w)
     = (case t of TimeoutId i \<Rightarrow> filter (\<lambda>x. fst x \<noteq> i) (timers w) | _ \<Rightarrow> timers w)"
  by (cases t) (simp_all add: clear_timeout_def)

lemma suppress_fields:
  "events (suppress_active_timeout u) = events u"
  "clock (suppress_active_timeout u) = clock u"
  "opts (suppress_active_timeout u) = opts u"
  "next_timer_id (suppress_active_timeout u) = next_timer_id u"
  "timers (suppress_active_timeout u)
     = (case debounce_timeout u of TimeoutId i \<Rightarrow> filter (\<lambda>x. fst x \<noteq> i) (timers u)
        | _ \<Rightarrow> timers u)"
  "suppressed_event_count (suppress_active_timeout u)
     = (if timeout_truthy (debounce_timeout u) then suppressed_event_count u + 1
        else suppressed_event_count u)"
  "\<not> timeout_truthy (debounce_timeout (suppress_active_timeout u))"
  by (cases "debounce_timeout u";
      simp add: suppress_active_timeout_def clear_debounce_timeout_def clear_timeout_def Let_def)+

lemma dispatch_event_with_reset:
  "debounce_timeout (dispatch_event_with L d) = TimeoutNull"
  "suppressed_event_count (dispatch_event_with L d) = 0"
  by (simp_all add: dispatch_event_with_def clear_debounce_timeout_def)

section \<open>Time passing and streams of writes\<close>

lemma later_refl: "later s s"
  by (simp add: later_def)

lemma later_trans:
  assumes "later a b" and "later b c"
  shows "later a c"
proof -
  obtain e1 where e1: "events b = events a @ e1" "\<forall>e\<in>set e1. clock a \<le> e \<and> e \<le> clock b"
    using assms(1) by (auto simp: later_def)
  obtain e2 where e2: "events c = events b @ e2" "\<forall>e\<in>set e2. clock b \<le> e \<and> e \<le> clock c"
    using assms(2) by (auto simp: later_def)
  have cl: "clock a \<le> clock b" "clock b \<le> clock c"
    using assms by (auto simp: later_def)
  have "events c = events a @ (e1 @ e2)" using e1 e2 by simp
  moreover have "\<forall>e\<in>set (e1 @ e2). clock a \<le> e \<and> e \<le> clock c"
    using e1(2) e2(2) cl by fastforce
  ultimately have "\<exists>ext. events c = events a @ ext \<and> (\<forall>e\<in>set ext. clock a \<le> e \<and> e \<le> clock c)"
    by blast
  then show ?thesis
    using assms cl by (simp add: later_def)
qed

lemma later_length: "later s s' \<Longrightarrow> length (events s) \<le> length (events s')"
  by (auto simp: later_def)

lemma dispatch_event_fields:
  "events (dispatch_event w) = events w @ [clock w]"
  "clock (dispatch_event w) = clock w"
  "opts (dispatch_event w) = opts w"
  "suppressed_event_count (dispatch_event w) = 0"
  by (cases "debounce_timeout w";
      simp add: dispatch_event_unfold clear_debounce_timeout_def clear_timeout_def)+

lemma later_set_trap: "later s (snd (set_trap s key v))"
proof (cases "accepted s key v")
  case True
  let ?u = "stored s key v"
  have eq: "snd (set_trap s key v) = emit_or_schedule (suppress_active_timeout ?u)"
    using accepted_set_trap[OF True] by simp
  show ?thesis
  proof (cases "max_suppressed_event_count (opts ?u)
             \<le> (if timeout_truthy (debounce_timeout ?u) then suppressed_event_count ?u + 1
                 else suppressed_event_count ?u)")
    case True
    show ?thesis
      unfolding eq later_def
      using on_change_dispatch[OF True] by (simp add: on_change_frame stored_fields)
  next
    case False
    show ?thesis
      unfolding eq later_def
      using on_change_schedule[OF False] by (simp add: on_change_frame stored_fields)
  qed
next
  case False
  then have "clock (snd (set_trap s key v)) = clock s
     \<and> opts (snd (set_trap s key v)) = opts s
     \<and> events (snd (set_trap s key v)) = events s
     \<and> suppressed_event_count (snd (set_trap s key v)) = suppressed_event_count s"
    by (auto simp: accepted_def set_trap_unfold Let_def
             split: option.splits sum.splits if_splits prod.splits)
  then show ?thesis by (simp add: later_def)
qed

lemma fire_cases:
  "fire x s = s
   \<or> (x \<in> set (timers s) \<and> events (fire x s) = events s @ [max (clock s) (snd (snd x))]
       \<and> clock (fire x s) = max (clock s) (snd (snd x)) \<and> opts (fire x s) = opts s
       \<and> suppressed_event_count (fire x s) = 0)"
  by (simp add: fire_unfold dispatch_event_fields clear_timeout_def)

lemma later_fire: "later s (fire x s)"
  using fire_cases[of x s] by (auto simp: later_def)

lemma later_fold_fire: "later s (fold fire L s)"
proof (induction L arbitrary: s)
  case Nil
  then show ?case by (simp add: later_refl)
next
  case (Cons y L)
  have "later s (fire y s)" by (rule later_fire)
  moreover have "later (fire y s) (fold fire L (fire y s))" by (rule Cons.IH)
  ultimately show ?case using later_trans by simp
qed

lemma fold_fire_clock:
  assumes "\<forall>x\<in>set L. snd (snd x) \<le> t" and "clock s \<le> t"
  shows "clock (fold fire L s) \<le> t"
  using assms
proof (induction L arbitrary: s)
  case Nil
  then show ?case by simp
next
  case (Cons y L)
  have "clock (fire y s) \<le> t"
    using fire_cases[of y s] Cons.prems by auto
  then show ?case using Cons by simp
qed

lemma fold_fire_progress:
  assumes "x \<in> set L" and "x \<in> set (timers s)"
  shows "length (events s) < length (events (fold fire L s))"
  using assms
proof (induction L arbitrary: s)
  case Nil
  then show ?case by simp
next
  case (Cons y L)
  show ?case
  proof (cases "y \<in> set (timers s)")
    case True
    then have "length (events (fire y s)) = Suc (length (events s))"
      using fire_cases[of y s] by (auto simp: fire_unfold dispatch_event_fields clear_timeout_def)
    moreover have "length (events (fire y s)) \<le> length (events (fold fire L (fire y s)))"
      using later_fold_fire by (rule later_length)
    ultimately show ?thesis by simp
  next
    case False
    then have same: "fire y s = s" by (simp add: fire_unfold)
    have "x \<noteq> y" using False Cons.prems(2) by auto
    then have "x \<in> set L" using Cons.prems(1) by simp
    then show ?thesis using Cons.IH Cons.prems(2) same by simp
  qed
qed

lemma fold_fire_quiet:
  "fold fire L s = s \<or> length (events s) < length (events (fold fire L s))"
proof (induction L arbitrary: s)
  case Nil
  then show ?case by simp
next
  case (Cons y L)
  show ?case
  proof (cases "fire y s = s")
    case True
    then show ?thesis using Cons.IH[of s] by simp
  next
    case False
    then have "length (events (fire y s)) = Suc (length (events s))"
      using fire_cases[of y s] by auto
    moreover have "length (events (fire y s)) \<le> length (events (fold fire L (fire y s)))"
      using later_fold_fire by (rule later_length)
    ultimately show ?thesis by simp
  qed
qed

lemma due_timers_set:
  "set (due_timers t s) = {x \<in> set (timers s). fst (snd x) = DispatchEvent \<and> snd (snd x) \<le> t}"
  by (auto simp: due_timers_def)

lemma later_advance:
  assumes "clock s \<le> t"
  shows "later s (advance_to t s)" and "clock (advance_to t s) = t"
proof -
  let ?f = "fold fire (due_timers t s) s"
  have l: "later s ?f" by (rule later_fold_fire)
  have c: "clock ?f \<le> t"
    by (rule fold_fire_clock) (use assms in \<open>auto simp: due_timers_set\<close>)
  have "later ?f (?f\<lparr>clock := max (clock ?f) t\<rparr>)"
    by (simp add: later_def)
  then show "later s (advance_to t s)"
    using l later_trans by (simp add: advance_to_def Let_def)
  show "clock (advance_to t s) = t"
    using c by (simp add: advance_to_def Let_def)
qed

lemma advance_progress:
  assumes "(i, DispatchEvent, d) \<in> set (timers s)" and "d \<le> t"
  shows "length (events s) < length (events (advance_to t s))"
proof -
  have "(i, DispatchEvent, d) \<in> set (due_timers t s)"
    using assms by (simp add: due_timers_set)
  then have "length (events s) < length (events (fold fire (due_timers t s) s))"
    using assms(1) by (rule fold_fire_progress)
  then show ?thesis by (simp add: advance_to_def Let_def)
qed

lemma advance_quiet:
  "advance_to t s = s\<lparr>clock := max (clock s) t\<rparr>
   \<or> length (events s) < length (events (advance_to t s))"
  using fold_fire_quiet[of "due_timers t s" s]
  by (auto simp: advance_to_def Let_def)


lemma set_trap_clock: "clock (snd (set_trap s key v)) = clock s"
proof (cases "accepted s key v")
  case True
  let ?u = "stored s key v"
  have eq: "snd (set_trap s key v) = emit_or_schedule (suppress_active_timeout ?u)"
    using accepted_set_trap[OF True] by simp
  show ?thesis
    unfolding eq
    using on_change_dispatch(6)[of ?u] on_change_schedule(6)[of ?u]
    by (cases "max_suppressed_event_count (opts ?u)
             \<le> (if timeout_truthy (debounce_timeout ?u) then suppressed_event_count ?u + 1
                 else suppressed_event_count ?u)") (simp_all add: stored_fields)
next
  case False
  then show ?thesis
    by (auto simp: accepted_def set_trap_unfold Let_def
             split: option.splits sum.splits if_splits prod.splits)
qed

lemma armed_advance:
  assumes "armed N D B s" and "clock s \<le> t"
  shows "length (events s) < length (events (advance_to t s)) \<or> primed N D B (advance_to t s)"
proof -
  obtain i d where a: "debounce_timeout s = TimeoutId i" "(i, DispatchEvent, d) \<in> set (timers s)"
    "0 \<le> suppressed_event_count s" "suppressed_event_count s < N"
    "d + (N - 1 - suppressed_event_count s) * D \<le> B"
    using assms by (auto simp: armed_def)
  show ?thesis
  proof (cases "d \<le> t")
    case True
    then show ?thesis using advance_progress[OF a(2)] by simp
  next
    case False
    show ?thesis
    proof (cases "length (events s) < length (events (advance_to t s))")
      case True
      then show ?thesis by simp
    next
      case quiet: False
      then have eq: "advance_to t s = s\<lparr>clock := max (clock s) t\<rparr>"
        using advance_quiet[of t s] by simp
      have "primed N D B (advance_to t s)"
        unfolding eq primed_def using a False assms(2) by auto
      then show ?thesis by simp
    qed
  qed
qed

lemma primed_write:
  assumes p: "primed N D B s" and acc: "accepted s key v"
    and N: "max_suppressed_event_count (opts s) = N"
    and D: "debounce_ms (opts s) = D" "0 \<le> D"
  shows "length (events s) < length (events (snd (set_trap s key v)))
         \<or> armed N D B (snd (set_trap s key v))"
proof -
  obtain i d where a: "debounce_timeout s = TimeoutId i"
    "0 \<le> suppressed_event_count s" "suppressed_event_count s < N"
    "d + (N - 1 - suppressed_event_count s) * D \<le> B" "clock s < d"
    using p by (auto simp: primed_def)
  let ?u = "stored s key v"
  let ?c = "suppressed_event_count s"
  have eq: "snd (set_trap s key v) = emit_or_schedule (suppress_active_timeout ?u)"
    using accepted_set_trap[OF acc] by simp
  have cnt: "(if timeout_truthy (debounce_timeout ?u) then suppressed_event_count ?u + 1
                 else suppressed_event_count ?u) = ?c + 1"
    using a(1) by (simp add: stored_fields)
  show ?thesis
  proof (cases "N \<le> ?c + 1")
    case True
    then have t: "max_suppressed_event_count (opts ?u)
             \<le> (if timeout_truthy (debounce_timeout ?u) then suppressed_event_count ?u + 1
                 else suppressed_event_count ?u)"
      unfolding cnt using N by (simp add: stored_fields)
    show ?thesis
      unfolding eq using on_change_dispatch(1)[OF t] by (simp add: stored_fields)
  next
    case False
    then have t: "\<not> max_suppressed_event_count (opts ?u)
             \<le> (if timeout_truthy (debounce_timeout ?u) then suppressed_event_count ?u + 1
                 else suppressed_event_count ?u)"
      unfolding cnt using N by (simp add: stored_fields)
    note oc = on_change_schedule[OF t]
    have tm: "(next_timer_id s, DispatchEvent, clock s + D)
                \<in> set (timers (emit_or_schedule (suppress_active_timeout ?u)))"
      unfolding oc(2) using D by (simp add: stored_fields)
    have h: "debounce_timeout (emit_or_schedule (suppress_active_timeout ?u))
               = TimeoutId (next_timer_id s)"
      unfolding oc(3) by (simp add: stored_fields)
    have c: "suppressed_event_count (emit_or_schedule (suppress_active_timeout ?u)) = ?c + 1"
      unfolding oc(4) cnt by simp
    have "(N - 1 - (?c + 1)) * D + D = (N - 1 - ?c) * D"
      by (simp add: algebra_simps)
    then have bound: "clock s + D + (N - 1 - (?c + 1)) * D \<le> B"
      using a(4) a(5) by linarith
    have "armed N D B (snd (set_trap s key v))"
      unfolding eq armed_def using tm h c bound a(2) False by auto
    then show ?thesis by simp
  qed
qed

lemma first_write:
  assumes acc: "accepted s key v"
    and N: "max_suppressed_event_count (opts s) = N" "0 \<le> N"
    and D: "debounce_ms (opts s) = D" "0 \<le> D"
    and c0: "0 \<le> suppressed_event_count s"
  shows "length (events s) < length (events (snd (set_trap s key v)))
         \<or> armed N D (clock s + N * D) (snd (set_trap s key v))"
proof -
  let ?u = "stored s key v"
  let ?c1 = "(if timeout_truthy (debounce_timeout ?u) then suppressed_event_count ?u + 1
                 else suppressed_event_count ?u)"
  have eq: "snd (set_trap s key v) = emit_or_schedule (suppress_active_timeout ?u)"
    using accepted_set_trap[OF acc] by simp
  have c1: "0 \<le> ?c1" using c0 by (simp add: stored_fields)
  show ?thesis
  proof (cases "N \<le> ?c1")
    case True
    then have t: "max_suppressed_event_count (opts ?u) \<le> ?c1"
      using N by (simp add: stored_fields)
    show ?thesis
      unfolding eq using on_change_dispatch(1)[OF t] by (simp add: stored_fields)
  next
    case False
    then have t: "\<not> max_suppressed_event_count (opts ?u) \<le> ?c1"
      using N by (simp add: stored_fields)
    note oc = on_change_schedule[OF t]
    have tm: "(next_timer_id s, DispatchEvent, clock s + D)
                \<in> set (timers (emit_or_schedule (suppress_active_timeout ?u)))"
      unfolding oc(2) using D by (simp add: stored_fields)
    have h: "debounce_timeout (emit_or_schedule (suppress_active_timeout ?u))
               = TimeoutId (next_timer_id s)"
      unfolding oc(3) by (simp add: stored_fields)
    have c: "suppressed_event_count (emit_or_schedule (suppress_active_timeout ?u)) = ?c1"
      unfolding oc(4) by simp
    have "(N - ?c1) * D \<le> N * D"
      using c1 D(2) by (intro mult_right_mono) simp_all
    moreover have "D + (N - 1 - ?c1) * D = (N - ?c1) * D"
      by (simp add: algebra_simps)
    ultimately have bound: "clock s + D + (N - 1 - ?c1) * D \<le> clock s + N * D"
      by linarith
    have "armed N D (clock s + N * D) (snd (set_trap s key v))"
      unfolding eq armed_def using tm h c bound c1 False by auto
    then show ?thesis by simp
  qed
qed


lemma later_run_stream:
  assumes "sorted (map fst xs)" and "\<forall>x\<in>set xs. clock s \<le> fst x"
  shows "later s (run_stream s xs)"
  using assms
proof (induction xs arbitrary: s)
  case Nil
  then show ?case by (simp add: later_refl)
next
  case (Cons x xs)
  obtain t key v where x: "x = (t, key, v)" by (cases x)
  let ?s1 = "advance_to t s"
  let ?s2 = "snd (set_trap ?s1 key v)"
  have ct: "clock s \<le> t" using Cons.prems(2) x by simp
  have l1: "later s ?s1" and c1: "clock ?s1 = t"
    using later_advance[OF ct] by simp_all
  have l2: "later ?s1 ?s2" by (rule later_set_trap)
  have c2: "clock ?s2 = t" using c1 by (simp add: set_trap_clock)
  have l3: "later ?s2 (run_stream ?s2 xs)"
    using Cons.prems(1) x by (intro Cons.IH) (auto simp: c2)
  have "later s (run_stream ?s2 xs)"
    using l1 l2 l3 later_trans by blast
  then show ?case unfolding x by simp
qed

lemma run_stream_clock:
  assumes "sorted (map fst xs)" and "\<forall>x\<in>set xs. clock s \<le> fst x \<and> fst x \<le> B"
    and "clock s \<le> B"
  shows "clock (run_stream s xs) \<le> B"
  using assms
proof (induction xs arbitrary: s)
  case Nil
  then show ?case by simp
next
  case (Cons x xs)
  obtain t key v where x: "x = (t, key, v)" by (cases x)
  let ?s2 = "snd (set_trap (advance_to t s) key v)"
  have ct: "clock s \<le> t" "t \<le> B" using Cons.prems(2) x by simp_all
  have c2: "clock ?s2 = t" using later_advance(2)[OF ct(1)] by (simp add: set_trap_clock)
  have "clock (run_stream ?s2 xs) \<le> B"
    using Cons.prems(1,2) x ct by (intro Cons.IH) (auto simp: c2)
  then show ?case unfolding x by simp
qed

lemma stream_keeps:
  assumes "n0 < length (events s) \<or> armed N D B s"
    and "n0 \<le> length (events s)"
    and "max_suppressed_event_count (opts s) = N"
    and "debounce_ms (opts s) = D" and "0 \<le> D"
    and "sorted (map fst xs)" and "\<forall>x\<in>set xs. clock s \<le> fst x"
    and "stream_accepted s xs"
  shows "n0 < length (events (run_stream s xs)) \<or> armed N D B (run_stream s xs)"
  using assms
proof (induction xs arbitrary: s)
  case Nil
  then show ?case by simp
next
  case (Cons x xs)
  obtain t key v where x: "x = (t, key, v)" by (cases x)
  let ?s1 = "advance_to t s"
  let ?s2 = "snd (set_trap ?s1 key v)"
  have ct: "clock s \<le> t" using Cons.prems(7) x by simp
  have l1: "later s ?s1" and c1: "clock ?s1 = t"
    using later_advance[OF ct] by simp_all
  have l2: "later ?s1 ?s2" by (rule later_set_trap)
  have c2: "clock ?s2 = t" using c1 by (simp add: set_trap_clock)
  have o1: "opts ?s1 = opts s" using l1 by (simp add: later_def)
  have o2: "opts ?s2 = opts s" using l2 o1 by (simp add: later_def)
  have len: "length (events s) \<le> length (events ?s1)" "length (events ?s1) \<le> length (events ?s2)"
    using l1 l2 by (auto dest: later_length)
  have acc: "accepted ?s1 key v" "stream_accepted ?s2 xs"
    using Cons.prems(8) x by simp_all
  have inv2: "n0 < length (events ?s2) \<or> armed N D B ?s2"
  proof (cases "n0 < length (events s)")
    case True
    then show ?thesis using len by simp
  next
    case False
    then have ar: "armed N D B s" using Cons.prems(1) by simp
    from armed_advance[OF ar ct] show ?thesis
    proof
      assume "length (events s) < length (events ?s1)"
      then show ?thesis using Cons.prems(2) len by simp
    next
      assume pr: "primed N D B ?s1"
      have "length (events ?s1) < length (events ?s2) \<or> armed N D B ?s2"
        using pr acc(1) Cons.prems(3,4,5) o1 by (intro primed_write) simp_all
      then show ?thesis using Cons.prems(2) len by auto
    qed
  qed
  have "n0 < length (events (run_stream ?s2 xs)) \<or> armed N D B (run_stream ?s2 xs)"
    using inv2 Cons.prems(2,3,4,5,6) len o2 acc(2) x
    by (intro Cons.IH) (auto simp: c2)
  then show ?case unfolding x by simp
qed

lemma stream_bound:
  assumes N: "max_suppressed_event_count (opts w) = N" "0 \<le> N"
    and D: "debounce_ms (opts w) = D" "0 \<le> D"
    and c0: "0 \<le> suppressed_event_count w"
    and t1: "clock w \<le> t1"
    and sorted: "sorted (t1 # map fst xs)"
    and window: "\<forall>x\<in>set xs. fst x \<le> t1 + N * D"
    and acc: "stream_accepted w ((t1, k1, v1) # xs)"
  shows "\<exists>e\<in>set (drop (length (events (advance_to t1 w)))
                  (events (advance_to (t1 + N * D) (run_stream w ((t1, k1, v1) # xs))))).
           t1 \<le> e \<and> e \<le> t1 + N * D"
proof -
  let ?B = "t1 + N * D"
  let ?a = "advance_to t1 w"
  let ?s1 = "snd (set_trap ?a k1 v1)"
  let ?fin = "run_stream ?s1 xs"
  let ?f = "advance_to ?B ?fin"
  let ?n0 = "length (events ?a)"
  have la: "later w ?a" and ca: "clock ?a = t1"
    using later_advance[OF t1] by simp_all
  have oa: "opts ?a = opts w" and cnt: "0 \<le> suppressed_event_count ?a"
    using la c0 by (simp_all add: later_def)
  have l1: "later ?a ?s1" by (rule later_set_trap)
  have c1: "clock ?s1 = t1" using ca by (simp add: set_trap_clock)
  have o1: "opts ?s1 = opts w" using l1 oa by (simp add: later_def)
  have acc1: "accepted ?a k1 v1" and accs: "stream_accepted ?s1 xs"
    using acc by simp_all
  have srt: "sorted (map fst xs)" and ge: "\<forall>x\<in>set xs. clock ?s1 \<le> fst x"
    using sorted by (simp_all add: c1)
  have nd: "0 \<le> N * D" using N(2) D(2) by simp
  have inv1: "?n0 < length (events ?s1) \<or> armed N D ?B ?s1"
    using first_write[OF acc1, of N D] N D oa cnt ca by simp
  have inv: "?n0 < length (events ?fin) \<or> armed N D ?B ?fin"
    using inv1 later_length[OF l1] N(1) D o1 srt ge accs
    by (intro stream_keeps) simp_all
  have lf: "later ?s1 ?fin" using srt ge by (rule later_run_stream)
  have cf: "clock ?fin \<le> ?B"
    using srt ge window nd by (intro run_stream_clock) (auto simp: c1)
  have lff: "later ?fin ?f" and cff: "clock ?f = ?B"
    using later_advance[OF cf] by simp_all
  have n0: "?n0 \<le> length (events ?fin)"
    using later_length[OF l1] later_length[OF lf] by simp
  have notified: "?n0 < length (events ?f)"
  proof (cases "?n0 < length (events ?fin)")
    case True
    then show ?thesis using later_length[OF lff] by simp
  next
    case False
    then have "armed N D ?B ?fin" using inv by simp
    then obtain i d where a: "(i, DispatchEvent, d) \<in> set (timers ?fin)"
      "0 \<le> suppressed_event_count ?fin" "suppressed_event_count ?fin < N"
      "d + (N - 1 - suppressed_event_count ?fin) * D \<le> ?B"
      by (auto simp: armed_def)
    have "0 \<le> (N - 1 - suppressed_event_count ?fin) * D"
      using a(3) D(2) by simp
    then have "d \<le> ?B" using a(4) by linarith
    then have "length (events ?fin) < length (events ?f)"
      using advance_progress[OF a(1)] by simp
    then show ?thesis using n0 by simp
  qed
  have "later ?a ?f"
    using l1 lf lff later_trans by blast
  then obtain ext where ext: "events ?f = events ?a @ ext"
    "\<forall>e\<in>set ext. clock ?a \<le> e \<and> e \<le> clock ?f"
    by (auto simp: later_def)
  have "ext \<noteq> []" using notified ext(1) by auto
  then obtain e where "e \<in> set ext" by (cases ext) auto
  then have "e \<in> set (drop ?n0 (events ?f))" "t1 \<le> e \<and> e \<le> ?B"
    using ext ca cff by simp_all
  then show ?thesis by auto
qed


lemma write_holds:
  assumes acc: "accepted s key v"
    and N: "max_suppressed_event_count (opts s) = N"
    and c: "if timeout_truthy (debounce_timeout s) then m \<le> suppressed_event_count s + 1
            else m \<le> suppressed_event_count s"
  shows "length (events s) < length (events (snd (set_trap s key v)))
         \<or> holding N m (snd (set_trap s key v))"
proof -
  let ?u = "stored s key v"
  let ?c1 = "(if timeout_truthy (debounce_timeout ?u) then suppressed_event_count ?u + 1
                 else suppressed_event_count ?u)"
  have eq: "snd (set_trap s key v) = emit_or_schedule (suppress_active_timeout ?u)"
    using accepted_set_trap[OF acc] by simp
  have m: "m \<le> ?c1" using c by (simp add: stored_fields)
  show ?thesis
  proof (cases "N \<le> ?c1")
    case True
    then have t: "max_suppressed_event_count (opts ?u) \<le> ?c1"
      using N by (simp add: stored_fields)
    show ?thesis
      unfolding eq using on_change_dispatch(1)[OF t] by (simp add: stored_fields)
  next
    case False
    then have t: "\<not> max_suppressed_event_count (opts ?u) \<le> ?c1"
      using N by (simp add: stored_fields)
    note oc = on_change_schedule[OF t]
    have "holding N m (snd (set_trap s key v))"
      unfolding eq holding_def oc(3) oc(4) using m False by simp
    then show ?thesis by simp
  qed
qed

lemma later_writes: "later s (writes s kvs)"
proof (induction kvs arbitrary: s)
  case Nil
  then show ?case by (simp add: later_refl)
next
  case (Cons kv kvs)
  obtain key v where kv: "kv = (key, v)" by (cases kv)
  have "later s (snd (set_trap s key v))" by (rule later_set_trap)
  moreover have "later (snd (set_trap s key v)) (writes (snd (set_trap s key v)) kvs)"
    by (rule Cons.IH)
  ultimately show ?case unfolding kv using later_trans by simp
qed

lemma writes_hold:
  assumes "writes_accepted s kvs" and "holding N m s"
    and "max_suppressed_event_count (opts s) = N"
  shows "length (events s) < length (events (writes s kvs))
         \<or> holding N (m + int (length kvs)) (writes s kvs)"
  using assms
proof (induction kvs arbitrary: s m)
  case Nil
  then show ?case by simp
next
  case (Cons kv kvs)
  obtain key v where kv: "kv = (key, v)" by (cases kv)
  let ?s1 = "snd (set_trap s key v)"
  have acc: "accepted s key v" "writes_accepted ?s1 kvs"
    using Cons.prems(1) kv by simp_all
  have l1: "later s ?s1" by (rule later_set_trap)
  have o1: "max_suppressed_event_count (opts ?s1) = N"
    using l1 Cons.prems(3) by (simp add: later_def)
  have l2: "later ?s1 (writes ?s1 kvs)" by (rule later_writes)
  have c: "if timeout_truthy (debounce_timeout s) then m + 1 \<le> suppressed_event_count s + 1
            else m + 1 \<le> suppressed_event_count s"
    using Cons.prems(2) by (simp add: holding_def)
  from write_holds[OF acc(1) Cons.prems(3) c] show ?case
  proof
    assume "length (events s) < length (events ?s1)"
    then show ?thesis using later_length[OF l2] unfolding kv by simp
  next
    assume h: "holding N (m + 1) ?s1"
    have e: "m + 1 + int (length kvs) = m + int (length ((key, v) # kvs))" by simp
    from Cons.IH[OF acc(2) h o1] show ?thesis
      unfolding e kv using later_length[OF l1] by auto
  qed
qed

lemma count_bound:
  assumes N: "max_suppressed_event_count (opts w) = N" "0 \<le> N"
    and c0: "0 \<le> suppressed_event_count w"
    and acc: "writes_accepted w kvs"
    and len: "int (length kvs) = N + 1"
  shows "length (events w) < length (events (writes w kvs))"
proof -
  obtain key v rest where kvs: "kvs = (key, v) # rest"
    using len N(2) by (cases kvs) auto
  let ?s1 = "snd (set_trap w key v)"
  have a: "accepted w key v" "writes_accepted ?s1 rest"
    using acc kvs by simp_all
  have l1: "later w ?s1" by (rule later_set_trap)
  have o1: "max_suppressed_event_count (opts ?s1) = N"
    using l1 N(1) by (simp add: later_def)
  have l2: "later ?s1 (writes ?s1 rest)" by (rule later_writes)
  have c: "if timeout_truthy (debounce_timeout w) then 0 \<le> suppressed_event_count w + 1
            else 0 \<le> suppressed_event_count w"
    using c0 by simp
  from write_holds[OF a(1) N(1) c] show ?thesis
  proof
    assume "length (events w) < length (events ?s1)"
    then show ?thesis using later_length[OF l2] unfolding kvs by simp
  next
    assume h: "holding N 0 ?s1"
    have r: "int (length rest) = N" using len kvs by simp
    from writes_hold[OF a(2) h o1] show ?thesis
    proof
      assume "length (events ?s1) < length (events (writes ?s1 rest))"
      then show ?thesis using later_length[OF l1] unfolding kvs by simp
    next
      assume "holding N (0 + int (length rest)) (writes ?s1 rest)"
      then have False unfolding r by (auto simp: holding_def)
      then show ?thesis ..
    qed
  qed
qed

text \<open>
  The bound of the comment at line 111, for listeners that are quiet.  Let \<open>N\<close> be
  \<^verbatim>\<open>max_suppressed_event_count\<close> and \<open>D\<close> be \<^verbatim>\<open>debounce_ms\<close>, neither negative, and let the counter not be negative (it starts at 0, and \<open>later\<close> says that no
  write and no timer makes it negative).  First part: take any stream of accepted writes,
  the first at time \<open>t1\<close>, the others at later times up to \<open>t1 + N * D\<close>; when the clock
  shows \<open>t1 + N * D\<close>, the event has been dispatched at some time from \<open>t1\<close> to
  \<open>t1 + N * D\<close>, by a write or by a timer.  Time is the model's clock: a timer fires
  when the clock reaches its due time.  Second part: of \<open>N + 1\<close> accepted writes one after
  the other, with no timer firing in between, at least one dispatches the event; so at most
  \<open>N\<close> consecutive accepted writes go without a notification.
\<close>

lemma quiet_stream_bound:
  assumes N: "max_suppressed_event_count (opts w) = N" "0 \<le> N"
    and D: "debounce_ms (opts w) = D" "0 \<le> D"
    and c0: "0 \<le> suppressed_event_count w"
  shows "(\<forall>t1 k1 v1 xs.
            clock w \<le> t1 \<and> sorted (t1 # map fst xs) \<and> (\<forall>x\<in>set xs. fst x \<le> t1 + N * D)
            \<and> stream_accepted w ((t1, k1, v1) # xs)
            \<longrightarrow> (\<exists>e\<in>set (drop (length (events (advance_to t1 w)))
                             (events (advance_to (t1 + N * D)
                                        (run_stream w ((t1, k1, v1) # xs))))).
                    t1 \<le> e \<and> e \<le> t1 + N * D))
       \<and> (\<forall>kvs. writes_accepted w kvs \<and> int (length kvs) = N + 1
            \<longrightarrow> length (events w) < length (events (writes w kvs)))"
proof (intro conjI allI impI)
  fix t1 k1 v1 xs
  assume "clock w \<le> t1 \<and> sorted (t1 # map fst xs) \<and> (\<forall>x\<in>set xs. fst x \<le> t1 + N * D)
            \<and> stream_accepted w ((t1, k1, v1) # xs)"
  then show "\<exists>e\<in>set (drop (length (events (advance_to t1 w)))
                             (events (advance_to (t1 + N * D)
                                        (run_stream w ((t1, k1, v1) # xs))))).
                    t1 \<le> e \<and> e \<le> t1 + N * D"
    using stream_bound[OF N D c0] by blast
next
  fix kvs
  assume "writes_accepted w kvs \<and> int (length kvs) = N + 1"
  then show "length (events w) < length (events (writes w kvs))"
    using count_bound[OF N c0] by blast
qed


text \<open>
  The example with \<open>N = 1\<close> and \<open>D = 10\<close>: writes at times 0 and 4; the second one
  dispatches the event, at time 4.
\<close>

lemma quiet_stream_bound_example:
  "max_suppressed_event_count (opts hasty_world) = 1 \<and> debounce_ms (opts hasty_world) = 10
   \<and> stream_accepted hasty_world
        [(0, ''count'', JNum (Finite 1)), (4, ''count'', JNum (Finite 2))]
   \<and> (\<exists>e\<in>set (drop (length (events (advance_to 0 hasty_world)))
                  (events (advance_to 10 (run_stream hasty_world
                     [(0, ''count'', JNum (Finite 1)), (4, ''count'', JNum (Finite 2))])))).
         0 \<le> e \<and> e \<le> 10)
   \<and> writes_accepted hasty_world [(''count'', JNum (Finite 1)), (''count'', JNum (Finite 2))]
   \<and> length (events hasty_world)
       < length (events (writes hasty_world
           [(''count'', JNum (Finite 1)), (''count'', JNum (Finite 2))]))"
proof -
  have N: "max_suppressed_event_count (opts hasty_world) = 1" "(0::int) \<le> 1"
    and D: "debounce_ms (opts hasty_world) = 10" "(0::int) \<le> 10"
    and c0: "0 \<le> suppressed_event_count hasty_world"
    and cl: "clock hasty_world \<le> 0"
    by (simp_all add: hasty_world_eq initial_world_def default_options_def)
  have sa: "stream_accepted hasty_world
        [(0, ''count'', JNum (Finite 1)), (4, ''count'', JNum (Finite 2))]"
    using hasty_first(1,2) hasty_second(1,2) by (simp add: hasty_world1_def)
  have wa: "writes_accepted hasty_world [(''count'', JNum (Finite 1)), (''count'', JNum (Finite 2))]"
    using hasty_first(2) hasty_second(6) by (simp add: hasty_world1_def)
  note b = quiet_stream_bound[OF N D c0]
  have t: "\<exists>e\<in>set (drop (length (events (advance_to 0 hasty_world)))
                  (events (advance_to (0 + 1 * 10) (run_stream hasty_world
                     ((0, ''count'', JNum (Finite 1)) # [(4, ''count'', JNum (Finite 2))]))))).
         0 \<le> e \<and> e \<le> 0 + 1 * 10"
    using b sa cl by (intro b[THEN conjunct1, rule_format]) simp
  have k: "length (events hasty_world)
       < length (events (writes hasty_world
           [(''count'', JNum (Finite 1)), (''count'', JNum (Finite 2))]))"
    using wa by (intro b[THEN conjunct2, rule_format]) simp
  show ?thesis
    using N(1) D(1) sa wa t k by simp
qed

section \<open>The Reactor, case by case\<close>

lemma example_render:
  "render example_env unrendered_reactor reactor_world = (Inr (), example_reactor, reactor_world)"
  by (simp add: render_def unrendered_reactor_def example_reactor_def example_opts_def call_def
        clear_timeout_def example_env_def strict_eq_def Let_def)

lemma example_construction:
  "Reactor example_env page [0] ''#app'' example_args (JFun ''view'')
     = (Inr example_reactor, reactor_world)"
  by (simp add: Reactor_def example_args_def invalid_options_def
        option_keys_def default_option_keys_def assign_options_def new_object_def
        add_listener_def page_def initial_world_def render_def call_def clear_timeout_def
        example_env_def strict_eq_def example_reactor_def unrendered_reactor_def
        example_target_def example_opts_def reactor_world_def Let_def)

lemma clear_timeout_fields:
  "heap (clear_timeout t w) = heap w"
  "tracked (clear_timeout t w) = tracked w"
  "listeners (clear_timeout t w) = listeners w"
  "events (clear_timeout t w) = events w"
  "console (clear_timeout t w) = console w"
  "clock (clear_timeout t w) = clock w"
  "next_timer_id (clear_timeout t w) = next_timer_id w"
  by (cases t; simp add: clear_timeout_def)+

lemma clear_timeout_twice:
  "clear_timeout t (clear_timeout t w) = clear_timeout t w"
  by (cases t) (simp_all add: clear_timeout_def)

lemma call_state_only:
  assumes "looks_at_state_only env"
    and "data a = data b" and "heap u = heap v" and "tracked u = tracked v"
  shows "call env f a u = call env f b v"
proof -
  have "\<And>name. env name a u = env name b v"
    using assms unfolding looks_at_state_only_def by blast
  then show ?thesis by (simp add: call_def split: jsval.splits)
qed

lemma render_cases:
  assumes "render env r w = (Inr (), r1, w1)"
  shows "w1 = clear_timeout (render_timeout r) w \<and> render_timeout r1 = render_timeout r
     \<and> ropts r1 = ropts r \<and> html_callback r1 = html_callback r \<and> data r1 = data r
     \<and> (\<exists>opt go. ropts r = Some opt \<and> call env (o_should_render opt) r w1 = Inr go
          \<and> (if truthy go then
                (\<exists>html. call env (html_callback r) r w1 = Inr html
                   \<and> (if truthy (force_update r) \<or> \<not> strict_eq html (old_node_html r)
                       then r1 = r\<lparr>dom_writes := dom_writes r @ [html], old_node_html := html,
                                    hook_calls := Suc (hook_calls r), force_update := JBool False\<rparr>
                       else r1 = r))
              else r1 = r))"
  using assms
  by (auto simp: render_def Let_def split: option.splits sum.splits if_splits)

lemma clear_timeout_console:
  "timers (clear_timeout t (w\<lparr>console := c\<rparr>)) = timers (clear_timeout t w)"
  by (cases t) (simp_all add: clear_timeout_def)


lemma waiting_after_write:
  "reactor_set_trap example_reactor example_target reactor_world ''n'' (JNum (Finite 7))
     = (Inr False, waiting_target, waiting_reactor, waiting_world)"
  by (simp add: reactor_set_trap_def example_target_def reactor_world_def
        page_def initial_world_def example_reactor_def unrendered_reactor_def example_opts_def
        lookup_def check_type_match_def assign_def clear_timeout_def
        set_timeout_def Let_def waiting_target_def waiting_reactor_def waiting_world_def)

section \<open>The claims about the global state\<close>

text \<open>
  C2.  With type checking enabled, a write of a value whose \<^verbatim>\<open>typeof\<close> differs from that of
  the current, defined value of the key fails with the type error; afterwards the target,
  the heap and so every read are as before, no event has been dispatched and no timer has
  been scheduled or cancelled.  (With \<^verbatim>\<open>debug\<close> on, the attempt has been logged to the
  console first.)
\<close>

theorem type_mismatch_write_fails:
  assumes "type_check (opts w)"
    and "lookup (heap w) (tracked w) key = Some old"
    and "old \<noteq> JUndefined"
    and "typeof old \<noteq> typeof v"
  shows "fst (set_trap w key v) = Inl (TypeErrorChange key (typeof old) (typeof v))
    \<and> tracked (snd (set_trap w key v)) = tracked w
    \<and> heap (snd (set_trap w key v)) = heap w
    \<and> get_trap (snd (set_trap w key v)) = get_trap w
    \<and> events (snd (set_trap w key v)) = events w
    \<and> timers (snd (set_trap w key v)) = timers w
    \<and> debounce_timeout (snd (set_trap w key v)) = debounce_timeout w
    \<and> suppressed_event_count (snd (set_trap w key v)) = suppressed_event_count w"
  unfolding set_trap_type_mismatch[OF assms]
  by (simp add: get_trap_def fun_eq_iff)

theorem type_mismatch_write_fails_witness:
  "type_check (opts example_world)
   \<and> lookup (heap example_world) (tracked example_world) ''count'' = Some (JNum (Finite 0))
   \<and> fst (set_trap example_world ''count'' (JStr ''one''))
       = Inl (TypeErrorChange ''count'' TyNumber TyString)
   \<and> get_trap (snd (set_trap example_world ''count'' (JStr ''one''))) ''count''
       = Inr (JNum (Finite 0))
   \<and> events (snd (set_trap example_world ''count'' (JStr ''one''))) = []
   \<and> timers (snd (set_trap example_world ''count'' (JStr ''one''))) = []"
proof -
  have a: "type_check (opts example_world)"
    by (simp add: example_world_eq initial_world_def default_options_def)
  have b: "lookup (heap example_world) (tracked example_world) ''count'' = Some (JNum (Finite 0))"
    by (simp add: example_world_eq initial_world_def lookup_def)
  have c: "JNum (Finite 0) \<noteq> JUndefined" by simp
  have d: "typeof (JNum (Finite 0)) \<noteq> typeof (JStr ''one'')" by simp
  have e: "get_trap example_world ''count'' = Inr (JNum (Finite 0))"
    by (simp add: get_trap_def b)
  have f: "events example_world = [] \<and> timers example_world = []"
    by (simp add: example_world_eq initial_world_def)
  show ?thesis
    using type_mismatch_write_fails[OF a b c d] a b e f by simp
qed

text \<open>
  C3.  After an accepted write of \<open>v\<close> to a tracked key (an own property of the target) that
  changes the value (\<open>v\<close> is not \<^verbatim>\<open>===\<close> the old value, so that something is stored), a read
  of the key returns a value \<open>c\<close> whose content is that of \<open>v\<close> at the time of the write,
  whatever is done afterwards to the objects that existed before the write, among them
  every object the caller can reach from \<open>v\<close>: \<open>h2\<close> is any later heap that still holds the
  objects the write has made.  The content of a value is its JSON serialisation, which is
  what the clone keeps of \<open>v\<close>.
\<close>

theorem accepted_write_stores_deep_copy:
  assumes own: "map_of (props (tracked w)) key = Some old"
    and changed: "\<not> strict_eq old v"
    and ok: "set_trap w key v = (Inr True, w')"
    and later: "keeps_from (length (heap w)) (heap w') h2"
  shows "\<exists>c. get_trap w' key = Inr c \<and> get_trap (w'\<lparr>heap := h2\<rparr>) key = Inr c
           \<and> stringify h2 [] c = stringify (heap w) [] v"
proof -
  have lk: "lookup (heap w) (tracked w) key = Some old"
    using own by (rule lookup_own)
  obtain c h' where cl: "clone_obj (heap w) v = Inr (c, h')"
    and hw: "heap w' = h'" and tw: "tracked w' = assign h' (tracked w) key c"
    using ok lk changed
    by (auto simp: set_trap_unfold Let_def on_change_frame
             split: sum.splits if_splits prod.splits)
  have g1: "get_trap w' key = Inr c"
    using lookup_assign_own[OF own] by (simp add: get_trap_def tw)
  have g2: "get_trap (w'\<lparr>heap := h2\<rparr>) key = Inr c"
    using lookup_assign_own[OF own] by (simp add: get_trap_def tw)
  have "stringify h2 [] c = stringify (heap w) [] v"
    using cl later unfolding hw by (rule clone_obj_content)
  then show ?thesis using g1 g2 by blast
qed

text \<open>
  The caller writes its array \<^verbatim>\<open>[1]\<close> and then pushes \<^verbatim>\<open>2\<close> onto it: the state still
  reads \<^verbatim>\<open>[1]\<close>.
\<close>

theorem accepted_write_stores_deep_copy_witness:
  "get_trap (snd (set_trap list_world ''list'' (JRef 0))
              \<lparr>heap := [Arr [JNum (Finite 1), JNum (Finite 2)], Arr [JNum (Finite 1)]]\<rparr>) ''list''
     = Inr (JRef 1)
   \<and> stringify [Arr [JNum (Finite 1), JNum (Finite 2)], Arr [JNum (Finite 1)]] [] (JRef 1)
     = Inr (Some (JsonArr [JsonNum 1]))
   \<and> stringify [Arr [JNum (Finite 1), JNum (Finite 2)], Arr [JNum (Finite 1)]] [] (JRef 0)
     = Inr (Some (JsonArr [JsonNum 1, JsonNum 2]))"
proof -
  let ?h2 = "[Arr [JNum (Finite 1), JNum (Finite 2)], Arr [JNum (Finite 1)]]"
  let ?w' = "snd (set_trap list_world ''list'' (JRef 0))"
  have own: "map_of (props (tracked list_world)) ''list'' = Some JNull"
    by (simp add: list_world_eq)
  have changed: "\<not> strict_eq JNull (JRef 0)" by (simp add: strict_eq_def)
  have ok: "set_trap list_world ''list'' (JRef 0) = (Inr True, ?w')"
    by (simp add: list_world_write)
  have hw: "heap ?w' = [Arr [JNum (Finite 1)], Arr [JNum (Finite 1)]]"
    by (simp add: list_world_write)
  have h0: "heap list_world = [Arr [JNum (Finite 1)]]"
    by (simp add: list_world_eq)
  have later: "keeps_from (length (heap list_world)) (heap ?w') ?h2"
    unfolding hw h0 by (simp add: keeps_from_def less_Suc_eq)
  have before: "stringify (heap list_world) [] (JRef 0) = Inr (Some (JsonArr [JsonNum 1]))"
    by (simp add: list_world_eq)
  from accepted_write_stores_deep_copy[OF own changed ok later] obtain c where
    c: "get_trap ?w' ''list'' = Inr c" "get_trap (?w'\<lparr>heap := ?h2\<rparr>) ''list'' = Inr c"
       "stringify ?h2 [] c = stringify (heap list_world) [] (JRef 0)"
    by blast
  have "c = JRef 1"
    using c(1) by (simp add: list_world_write get_trap_def lookup_def)
  then show ?thesis
    using c before by simp
qed

text \<open>
  C4.  A write of a value that is \<^verbatim>\<open>===\<close> the current value of the key (the same
  primitive value, or the same object) returns \<^verbatim>\<open>true\<close> and leaves the whole world as it
  is: no stored value changes, no event is dispatched, no timer is scheduled.  This holds
  for every key the trap accepts, so for every tracked key.  (NaN is not \<^verbatim>\<open>===\<close> NaN, and
  an object is not \<^verbatim>\<open>===\<close> another object of the same content.)
\<close>

theorem equal_write_is_noop:
  assumes "lookup (heap w) (tracked w) key = Some old" and "strict_eq old v"
  shows "set_trap w key v = (Inr True, w)"
  using assms by (rule set_trap_same)

theorem equal_write_is_noop_witness:
  "lookup (heap example_world) (tracked example_world) ''count'' = Some (JNum (Finite 0))
   \<and> strict_eq (JNum (Finite 0)) (JNum (Finite 0))
   \<and> set_trap example_world ''count'' (JNum (Finite 0)) = (Inr True, example_world)
   \<and> events example_world = [] \<and> timers example_world = []"
proof -
  have a: "lookup (heap example_world) (tracked example_world) ''count'' = Some (JNum (Finite 0))"
    by (simp add: example_world_eq initial_world_def lookup_def)
  have b: "strict_eq (JNum (Finite 0)) (JNum (Finite 0))"
    by (simp add: strict_eq_def)
  have c: "events example_world = [] \<and> timers example_world = []"
    by (simp add: example_world_eq initial_world_def)
  show ?thesis
    using equal_write_is_noop[OF a b] a b c by simp
qed

text \<open>
  C5.  An accepted mutation runs the scheduler as follows, whatever the listeners \<open>L\<close> do.
  A timer counts as pending when the handle \<^verbatim>\<open>stator._debounce_timeout\<close> is truthy;
  then the timer of that handle leaves the table (\<open>kept\<close> are the timers left) and the
  counter is one more (\<open>counter\<close>).  If the counter has reached
  \<^verbatim>\<open>max_suppressed_event_count\<close>, the event is dispatched at once: the listeners are
  called on a page \<open>d\<close> where the event is recorded, the timers are \<open>kept\<close> and no
  handle is truthy; after them the handle is \<^verbatim>\<open>null\<close> and the counter zero, and with
  quiet listeners no timer has been added.  Otherwise no event is dispatched and one timer
  of \<^verbatim>\<open>stator._dispatch_event\<close> is added to \<open>kept\<close>, due \<^verbatim>\<open>debounce_ms\<close> from now, its
  handle stored.  In particular, with \<^verbatim>\<open>max_suppressed_event_count\<close> at most 0 (the
  counter is never negative) the counter has reached it, so the event is dispatched at once.
\<close>

theorem scheduler_on_accepted_write:
  fixes L :: "world \<Rightarrow> world" and w :: world and key :: string and v :: jsval
  defines "w' \<equiv> snd (set_trap_with L w key v)"
  defines "pending \<equiv> timeout_truthy (debounce_timeout w)"
  defines "counter \<equiv> (if pending then suppressed_event_count w + 1 else suppressed_event_count w)"
  defines "kept \<equiv> (case debounce_timeout w of
                      TimeoutId i \<Rightarrow> filter (\<lambda>x. fst x \<noteq> i) (timers w)
                    | _ \<Rightarrow> timers w)"
  assumes acc: "accepted w key v"
  shows "(if max_suppressed_event_count (opts w) \<le> counter
          then (\<exists>d. events d = events w @ [clock w] \<and> timers d = kept
                    \<and> suppressed_event_count d = counter
                    \<and> \<not> timeout_truthy (debounce_timeout d)
                    \<and> w' = (clear_debounce_timeout (L d))\<lparr>suppressed_event_count := 0\<rparr>)
               \<and> debounce_timeout w' = TimeoutNull \<and> suppressed_event_count w' = 0
               \<and> (L = quiet \<longrightarrow> events w' = events w @ [clock w] \<and> timers w' = kept)
          else events w' = events w
               \<and> timers w' = kept @ [(next_timer_id w, DispatchEvent,
                                        clock w + max 0 (debounce_ms (opts w)))]
               \<and> debounce_timeout w' = TimeoutId (next_timer_id w)
               \<and> suppressed_event_count w' = counter)
         \<and> (max_suppressed_event_count (opts w) \<le> 0 \<and> 0 \<le> suppressed_event_count w
              \<longrightarrow> max_suppressed_event_count (opts w) \<le> counter)"
proof -
  let ?u = "stored w key v"
  let ?s = "suppress_active_timeout ?u"
  have w': "w' = emit_or_schedule_with L ?s"
    unfolding w'_def accepted_set_trap_with[OF acc] by simp
  have sf: "events ?s = events w" "clock ?s = clock w" "opts ?s = opts w"
    "next_timer_id ?s = next_timer_id w" "timers ?s = kept"
    "suppressed_event_count ?s = counter" "\<not> timeout_truthy (debounce_timeout ?s)"
    unfolding kept_def counter_def pending_def
    by (simp_all add: suppress_fields stored_fields split: timeout.splits)
  have last: "max_suppressed_event_count (opts w) \<le> 0 \<and> 0 \<le> suppressed_event_count w
              \<longrightarrow> max_suppressed_event_count (opts w) \<le> counter"
    unfolding counter_def by auto
  show ?thesis
  proof (cases "max_suppressed_event_count (opts w) \<le> counter")
    case True
    let ?d = "(if debug (opts ?s) then
             ?s\<lparr>console := console ?s @
                 [LogSuppressed (suppressed_event_count ?s) (max_suppressed_event_count (opts ?s))]\<rparr>
           else ?s)\<lparr>events := events w @ [clock w]\<rparr>"
    have eq: "w' = (clear_debounce_timeout (L ?d))\<lparr>suppressed_event_count := 0\<rparr>"
      unfolding w' using True sf
      by (simp add: emit_or_schedule_with_def dispatch_event_with_def)
    have d: "events ?d = events w @ [clock w]" "timers ?d = kept"
      "suppressed_event_count ?d = counter" "\<not> timeout_truthy (debounce_timeout ?d)"
      using sf by simp_all
    have ex: "\<exists>d. events d = events w @ [clock w] \<and> timers d = kept
                    \<and> suppressed_event_count d = counter
                    \<and> \<not> timeout_truthy (debounce_timeout d)
                    \<and> w' = (clear_debounce_timeout (L d))\<lparr>suppressed_event_count := 0\<rparr>"
      using d eq by blast
    have r: "debounce_timeout w' = TimeoutNull \<and> suppressed_event_count w' = 0"
      unfolding eq by (simp add: clear_debounce_timeout_def)
    have q: "L = quiet \<longrightarrow> events w' = events w @ [clock w] \<and> timers w' = kept"
    proof
      assume "L = quiet"
      then have "w' = (clear_debounce_timeout ?d)\<lparr>suppressed_event_count := 0\<rparr>"
        using eq by (simp add: quiet_def)
      then show "events w' = events w @ [clock w] \<and> timers w' = kept"
        using d by (simp add: clear_debounce_timeout_def clear_timeout_falsy)
    qed
    show ?thesis using True ex r q last by simp
  next
    case False
    have "w' = (case set_timeout DispatchEvent (debounce_ms (opts ?s)) ?s of
           (i, w1) \<Rightarrow> w1\<lparr>debounce_timeout := TimeoutId i\<rparr>)"
      unfolding w' using False sf by (simp add: emit_or_schedule_with_def)
    then have "events w' = events w
               \<and> timers w' = kept @ [(next_timer_id w, DispatchEvent,
                                        clock w + max 0 (debounce_ms (opts w)))]
               \<and> debounce_timeout w' = TimeoutId (next_timer_id w)
               \<and> suppressed_event_count w' = counter"
      using sf by (simp add: set_timeout_def)
    then show ?thesis using False last by simp
  qed
qed

text \<open>
  Two examples with a timer pending and the counter 0.  With the maximum of 10 the second
  accepted write takes the pending timer from the table, counts 1 and schedules a new
  timer; with the maximum of 1 it takes the pending timer from the table and dispatches the
  event at once, leaving no timer, no handle and the counter 0.
\<close>

theorem scheduler_on_accepted_write_witness:
  "accepted pending_world ''count'' (JNum (Finite 2))
   \<and> timers pending_world = [(1, DispatchEvent, 10)]
   \<and> debounce_timeout pending_world = TimeoutId 1
   \<and> suppressed_event_count pending_world = 0
   \<and> events (snd (set_trap_with quiet pending_world ''count'' (JNum (Finite 2)))) = []
   \<and> timers (snd (set_trap_with quiet pending_world ''count'' (JNum (Finite 2))))
       = [(2, DispatchEvent, 10)]
   \<and> debounce_timeout (snd (set_trap_with quiet pending_world ''count'' (JNum (Finite 2))))
       = TimeoutId 2
   \<and> suppressed_event_count (snd (set_trap_with quiet pending_world ''count'' (JNum (Finite 2))))
       = 1
   \<and> accepted hasty_world1 ''count'' (JNum (Finite 2))
   \<and> timers hasty_world1 = [(1, DispatchEvent, 10)]
   \<and> max_suppressed_event_count (opts hasty_world1) = 1
   \<and> events (snd (set_trap_with quiet hasty_world1 ''count'' (JNum (Finite 2)))) = [0]
   \<and> timers (snd (set_trap_with quiet hasty_world1 ''count'' (JNum (Finite 2)))) = []
   \<and> debounce_timeout (snd (set_trap_with quiet hasty_world1 ''count'' (JNum (Finite 2))))
       = TimeoutNull
   \<and> suppressed_event_count (snd (set_trap_with quiet hasty_world1 ''count'' (JNum (Finite 2))))
       = 0"
proof -
  have pw: "pending_world = initial_world\<lparr>state_created := True,
      tracked := \<lparr>props = [(''count'', JNum (Finite 1))], proto = ProtoObjectPrototype\<rparr>,
      timers := [(1, DispatchEvent, 10)], next_timer_id := 2,
      debounce_timeout := TimeoutId 1\<rparr>"
    by (simp add: pending_world_eq example_world_eq)
  have acc1: "accepted pending_world ''count'' (JNum (Finite 2))"
    by (simp add: pw eval_defs)
  have f1: "timers pending_world = [(1, DispatchEvent, 10)]"
    "debounce_timeout pending_world = TimeoutId 1"
    "suppressed_event_count pending_world = 0"
    "max_suppressed_event_count (opts pending_world) = 10"
    "debounce_ms (opts pending_world) = 10"
    "events pending_world = []" "next_timer_id pending_world = 2" "clock pending_world = 0"
    by (simp_all add: pw initial_world_def default_options_def)
  have acc2: "accepted hasty_world1 ''count'' (JNum (Finite 2))"
    by (rule hasty_second(6))
  have f2: "timers hasty_world1 = [(1, DispatchEvent, 10)]"
    "debounce_timeout hasty_world1 = TimeoutId 1"
    "suppressed_event_count hasty_world1 = 0"
    "max_suppressed_event_count (opts hasty_world1) = 1"
    "events hasty_world1 = []" "clock hasty_world1 = 0"
    by (simp_all add: hasty_world1_eq initial_world_def default_options_def)
  note a = scheduler_on_accepted_write[OF acc1, of quiet]
  note b = scheduler_on_accepted_write[OF acc2, of quiet]
  have r1: "events (snd (set_trap_with quiet pending_world ''count'' (JNum (Finite 2)))) = []
   \<and> timers (snd (set_trap_with quiet pending_world ''count'' (JNum (Finite 2))))
       = [(2, DispatchEvent, 10)]
   \<and> debounce_timeout (snd (set_trap_with quiet pending_world ''count'' (JNum (Finite 2))))
       = TimeoutId 2
   \<and> suppressed_event_count (snd (set_trap_with quiet pending_world ''count'' (JNum (Finite 2))))
       = 1"
    using a by (simp add: f1)
  have r2: "events (snd (set_trap_with quiet hasty_world1 ''count'' (JNum (Finite 2)))) = [0]
   \<and> timers (snd (set_trap_with quiet hasty_world1 ''count'' (JNum (Finite 2)))) = []
   \<and> debounce_timeout (snd (set_trap_with quiet hasty_world1 ''count'' (JNum (Finite 2))))
       = TimeoutNull
   \<and> suppressed_event_count (snd (set_trap_with quiet hasty_world1 ''count'' (JNum (Finite 2))))
       = 0"
    using b by (simp add: f2)
  show ?thesis using acc1 acc2 f1(1,2,3) f2(1,4) r1 r2 by simp
qed

text \<open>
  C6.  The claim, and the comment at line 111 (\<^verbatim>\<open>max wait time for event emission in
  milliseconds is: debounce_ms * max_suppressed_event_count\<close>), bound the wait for any
  stream of accepted writes.  \<^verbatim>\<open>_dispatch_event\<close> calls the listeners (line 137) before it
  clears the handle and resets the counter (lines 138-139), so a write made by a listener
  is lost to the scheduler.  With \<open>N = 10\<close> and \<open>D = 10\<close>: one write is made at time 0
  and its timer fires at time 10.  The listener then writes \<^verbatim>\<open>state.count = 7\<close>, after
  the event of time 10 was recorded; the write is accepted and, the counter being 1, below
  10, it schedules a timer due at time 20.  When the listeners have returned, line 138
  clears that timer.  The state reads 7, no timer is pending, and at time \<open>10 + N * D\<close>
  still no event has followed the write: it is never notified.
\<close>

theorem write_by_a_listener_is_never_notified:
  "timers pending_world = [(1, DispatchEvent, 10)]
   \<and> max_suppressed_event_count (opts pending_world) = 10
   \<and> debounce_ms (opts pending_world) = 10
   \<and> fire_with rewriting_listener (1, DispatchEvent, 10) pending_world
       = (clear_debounce_timeout (rewriting_listener listener_entry))
           \<lparr>suppressed_event_count := 0\<rparr>
   \<and> events listener_entry = [10]
   \<and> accepted listener_entry ''count'' (JNum (Finite 7))
   \<and> events (rewriting_listener listener_entry) = [10]
   \<and> timers (rewriting_listener listener_entry) = [(2, DispatchEvent, 20)]
   \<and> get_trap (fire_with rewriting_listener (1, DispatchEvent, 10) pending_world) ''count''
       = Inr (JNum (Finite 7))
   \<and> timers (fire_with rewriting_listener (1, DispatchEvent, 10) pending_world) = []
   \<and> debounce_timeout (fire_with rewriting_listener (1, DispatchEvent, 10) pending_world)
       = TimeoutNull
   \<and> events (fire_with rewriting_listener (1, DispatchEvent, 10) pending_world) = [10]
   \<and> events (advance_to 110 (fire_with rewriting_listener (1, DispatchEvent, 10) pending_world))
       = [10]"
proof -
  have pw: "pending_world = initial_world\<lparr>state_created := True,
      tracked := \<lparr>props = [(''count'', JNum (Finite 1))], proto = ProtoObjectPrototype\<rparr>,
      timers := [(1, DispatchEvent, 10)], next_timer_id := 2,
      debounce_timeout := TimeoutId 1\<rparr>"
    by (simp add: pending_world_eq example_world_eq)
  have le: "listener_entry = initial_world\<lparr>state_created := True,
      tracked := \<lparr>props = [(''count'', JNum (Finite 1))], proto = ProtoObjectPrototype\<rparr>,
      timers := [], next_timer_id := 2,
      debounce_timeout := TimeoutId 1, clock := 10, events := [10]\<rparr>"
    by (simp add: listener_entry_def pw clear_timeout_def)
  have rl: "rewriting_listener listener_entry = initial_world\<lparr>state_created := True,
      tracked := \<lparr>props = [(''count'', JNum (Finite 7))], proto = ProtoObjectPrototype\<rparr>,
      timers := [(2, DispatchEvent, 20)], next_timer_id := 3,
      debounce_timeout := TimeoutId 2, suppressed_event_count := 1,
      clock := 10, events := [10]\<rparr>"
    by (simp add: rewriting_listener_def le eval_defs)
  have step: "fire_with rewriting_listener (1, DispatchEvent, 10) pending_world
            = (clear_debounce_timeout (rewriting_listener listener_entry))
                \<lparr>suppressed_event_count := 0\<rparr>"
    by (simp add: fire_with_def dispatch_event_with_def listener_entry_def pw clear_timeout_def
          initial_world_def)
  have fw: "fire_with rewriting_listener (1, DispatchEvent, 10) pending_world
      = initial_world\<lparr>state_created := True,
      tracked := \<lparr>props = [(''count'', JNum (Finite 7))], proto = ProtoObjectPrototype\<rparr>,
      timers := [], next_timer_id := 3,
      debounce_timeout := TimeoutNull, suppressed_event_count := 0,
      clock := 10, events := [10]\<rparr>"
    using step by (simp add: rl clear_debounce_timeout_def clear_timeout_def initial_world_def)
  have rest: "timers pending_world = [(1, DispatchEvent, 10)]
   \<and> max_suppressed_event_count (opts pending_world) = 10
   \<and> debounce_ms (opts pending_world) = 10
   \<and> events listener_entry = [10]
   \<and> accepted listener_entry ''count'' (JNum (Finite 7))
   \<and> events (rewriting_listener listener_entry) = [10]
   \<and> timers (rewriting_listener listener_entry) = [(2, DispatchEvent, 20)]
   \<and> get_trap (fire_with rewriting_listener (1, DispatchEvent, 10) pending_world) ''count''
       = Inr (JNum (Finite 7))
   \<and> timers (fire_with rewriting_listener (1, DispatchEvent, 10) pending_world) = []
   \<and> debounce_timeout (fire_with rewriting_listener (1, DispatchEvent, 10) pending_world)
       = TimeoutNull
   \<and> events (fire_with rewriting_listener (1, DispatchEvent, 10) pending_world) = [10]
   \<and> events (advance_to 110 (fire_with rewriting_listener (1, DispatchEvent, 10) pending_world))
       = [10]"
    unfolding fw rl
    by (simp add: pw le eval_defs)
  show ?thesis using step rest by blast
qed

text \<open>
  C7.  The claim is that a key absent from the initial snapshot can neither be read nor
  written, and that no key can be added.  The traps test \<^verbatim>\<open>key in target\<close>, which is
  also true of every property the target inherits from \<^verbatim>\<open>Object.prototype\<close>.  After
  \<^verbatim>\<open>create_state({count: 0})\<close> the key \<^verbatim>\<open>toString\<close> is no property of the snapshot, yet
  reading it returns a function instead of throwing; and with type checking off, writing
  a number to it is accepted and adds \<^verbatim>\<open>toString\<close> to the keys of the state.
\<close>

theorem inherited_keys_pass_the_key_guard:
  "map_of (props (tracked example_world)) ''toString'' = None
   \<and> get_trap example_world ''toString'' = Inr (JFun ''Object.prototype.toString'')
   \<and> fst (set_trap unchecked_world ''toString'' (JNum (Finite 5))) = Inr True
   \<and> props (tracked (snd (set_trap unchecked_world ''toString'' (JNum (Finite 5)))))
       = [(''count'', JNum (Finite 0)), (''toString'', JNum (Finite 5))]"
  by (simp add: unchecked_world_def example_world_eq initial_world_def default_options_def
        get_trap_def set_trap_unfold lookup_def proto_lookup_def object_prototype_get_def
        object_prototype_keys_def strict_eq_def clone_obj_def assign_def reaches_proto_setter_def
        suppress_active_timeout_def emit_or_schedule_unfold set_timeout_def Let_def)

text \<open>
  C10.  A write that is rejected, for a key the trap does not find or for a change of type
  with type checking enabled, throws and leaves the scheduler as it was: the handle of the
  pending timer, the counter, the timers of the page and the next handle are unchanged, no
  event has been dispatched, and the target and the heap are as before.
\<close>

theorem rejected_write_frame:
  assumes "lookup (heap w) (tracked w) key = None
           \<or> (type_check (opts w)
               \<and> (\<exists>old. lookup (heap w) (tracked w) key = Some old
                     \<and> old \<noteq> JUndefined \<and> typeof old \<noteq> typeof v))"
  shows "isl (fst (set_trap w key v))
    \<and> debounce_timeout (snd (set_trap w key v)) = debounce_timeout w
    \<and> suppressed_event_count (snd (set_trap w key v)) = suppressed_event_count w
    \<and> timers (snd (set_trap w key v)) = timers w
    \<and> next_timer_id (snd (set_trap w key v)) = next_timer_id w
    \<and> events (snd (set_trap w key v)) = events w
    \<and> tracked (snd (set_trap w key v)) = tracked w
    \<and> heap (snd (set_trap w key v)) = heap w"
  using assms
proof (elim disjE conjE exE)
  assume "lookup (heap w) (tracked w) key = None"
  then show ?thesis by (simp add: set_trap_unknown_key)
next
  fix old
  assume "type_check (opts w)" "lookup (heap w) (tracked w) key = Some old"
    "old \<noteq> JUndefined" "typeof old \<noteq> typeof v"
  then show ?thesis by (simp add: set_trap_type_mismatch)
qed

theorem rejected_write_frame_witness:
  "lookup (heap pending_world) (tracked pending_world) ''total'' = None
   \<and> fst (set_trap pending_world ''total'' (JNum (Finite 1))) = Inl (CannotCreateNewKey ''total'')
   \<and> debounce_timeout (snd (set_trap pending_world ''total'' (JNum (Finite 1)))) = TimeoutId 1
   \<and> suppressed_event_count (snd (set_trap pending_world ''total'' (JNum (Finite 1)))) = 0
   \<and> timers (snd (set_trap pending_world ''total'' (JNum (Finite 1)))) = [(1, DispatchEvent, 10)]
   \<and> events (snd (set_trap pending_world ''total'' (JNum (Finite 1)))) = []"
proof -
  have a: "lookup (heap pending_world) (tracked pending_world) ''total'' = None"
    by (simp add: pending_world_eq example_world_eq initial_world_def lookup_def proto_lookup_def
          object_prototype_get_def object_prototype_keys_def)
  have f: "debounce_timeout pending_world = TimeoutId 1"
    "suppressed_event_count pending_world = 0"
    "timers pending_world = [(1, DispatchEvent, 10)]"
    "events pending_world = []"
    by (simp_all add: pending_world_eq example_world_eq initial_world_def)
  have e: "fst (set_trap pending_world ''total'' (JNum (Finite 1))) = Inl (CannotCreateNewKey ''total'')"
    by (simp add: set_trap_unknown_key[OF a])
  show ?thesis
    using rejected_write_frame[of pending_world "''total''" "JNum (Finite 1)"] a e f by simp
qed

section \<open>The claims about the Reactor\<close>




text \<open>
  C8, as the code has it.  When the selector matches exactly one node and the options
  hold a key that is no option, the constructor logs one error per such key, in the order
  of the keys, and returns: nothing is thrown, the caller gets the object with only
  \<^verbatim>\<open>_render_timeout\<close>, \<^verbatim>\<open>element\<close> and \<^verbatim>\<open>node\<close> set.  No listener has been added, no
  options and no state have been set up, and nothing has been rendered; but for the console
  the page is as before.
\<close>

theorem invalid_options_abort:
  assumes "length nodes = 1" and "invalid_options args \<noteq> []"
  shows "Reactor env w nodes el args cb =
     (Inr (new_object\<lparr>render_timeout := TimeoutNull, element := Some el, node := Some (hd nodes)\<rparr>),
      w\<lparr>console := console w @ map ErrorInvalidOption (invalid_options args)\<rparr>)
    \<and> listeners (snd (Reactor env w nodes el args cb)) = listeners w
    \<and> (\<forall>r. fst (Reactor env w nodes el args cb) = Inr r
          \<longrightarrow> ropts r = None \<and> data r = None \<and> dom_writes r = [] \<and> hook_calls r = 0)"
  using assms by (simp add: Reactor_def Let_def new_object_def)

theorem invalid_options_abort_witness:
  "invalid_options bad_args = [''colour'', ''size'']
   \<and> Reactor example_env page [0] ''#app'' bad_args (JFun ''view'') =
     (Inr (new_object\<lparr>render_timeout := TimeoutNull, element := Some ''#app'', node := Some 0\<rparr>),
      page\<lparr>console := [ErrorInvalidOption ''colour'', ErrorInvalidOption ''size'']\<rparr>)
   \<and> listeners (snd (Reactor example_env page [0] ''#app'' bad_args (JFun ''view''))) = []"
proof -
  have inv: "invalid_options bad_args = [''colour'', ''size'']"
    by (simp add: invalid_options_def option_keys_def bad_args_def default_option_keys_def)
  have n: "length [0::nat] = 1" by simp
  have ne: "invalid_options bad_args \<noteq> []" by (simp add: inv)
  have c: "console page = [] \<and> listeners page = []"
    by (simp add: page_def initial_world_def)
  show ?thesis
    using invalid_options_abort[OF n ne, of example_env page "''#app''" "JFun ''view''"] inv c
    by simp
qed

text \<open>
  C8, as claimed, fails: the error of an invalid option does not propagate to the caller.
  \<^verbatim>\<open>new Reactor('#app', {colour: 'red', debug: true, size: 3}, view)\<close> returns normally.
  And when the selector matches no node, the constructor throws for that before it looks at
  the options: no invalid key is reported, the console is untouched.
\<close>

theorem invalid_options_are_not_thrown:
  "invalid_options bad_args \<noteq> []
   \<and> \<not> isl (fst (Reactor example_env page [0] ''#app'' bad_args (JFun ''view'')))
   \<and> Reactor example_env page [] ''#app'' bad_args (JFun ''view'')
       = (Inl (QuerySelectorMatched ''#app'' 0), page)"
proof -
  have inv: "invalid_options bad_args = [''colour'', ''size'']"
    by (simp add: invalid_options_def option_keys_def bad_args_def default_option_keys_def)
  show ?thesis
    by (simp add: Reactor_def inv Let_def)
qed

text \<open>
  C9.  Let the callbacks look at the state only, and let a first \<^verbatim>\<open>render()\<close> complete
  with a render callback that does not return NaN (it returns a string).  Then a second
  \<^verbatim>\<open>render()\<close> right after it changes nothing: no DOM write, no call of the
  \<^verbatim>\<open>updated_html\<close> hook.  So the two calls together write the DOM at most once and call
  the hook at most once.  This holds whatever the force-update flag was before the first
  call, so in particular when it was unset.
\<close>

theorem render_twice_writes_once:
  assumes pure: "looks_at_state_only env"
    and first: "render env r w = (Inr (), r1, w1)"
    and no_nan: "call env (html_callback r) r w \<noteq> Inr (JNum NaN)"
  shows "render env r1 w1 = (Inr (), r1, w1)
    \<and> length (dom_writes r1) \<le> Suc (length (dom_writes r))
    \<and> hook_calls r1 \<le> Suc (hook_calls r)"
proof -
  from render_cases[OF first] obtain opt go where
    w1: "w1 = clear_timeout (render_timeout r) w"
    and keep: "render_timeout r1 = render_timeout r" "ropts r1 = ropts r"
      "html_callback r1 = html_callback r" "data r1 = data r"
    and opt: "ropts r = Some opt"
    and go: "call env (o_should_render opt) r w1 = Inr go"
    and body: "if truthy go then
                (\<exists>html. call env (html_callback r) r w1 = Inr html
                   \<and> (if truthy (force_update r) \<or> \<not> strict_eq html (old_node_html r)
                       then r1 = r\<lparr>dom_writes := dom_writes r @ [html], old_node_html := html,
                                    hook_calls := Suc (hook_calls r), force_update := JBool False\<rparr>
                       else r1 = r))
              else r1 = r"
    by blast
  have w1': "clear_timeout (render_timeout r1) w1 = w1"
    unfolding keep w1 by (rule clear_timeout_twice)
  have go': "call env (o_should_render opt) r1 w1 = Inr go"
    using call_state_only[OF pure keep(4) refl refl, of "o_should_render opt" w1] go by simp
  show ?thesis
  proof (cases "truthy go")
    case False
    then have r1: "r1 = r" using body by simp
    have "render env r1 w1 = (Inr (), r1, w1)"
      using False go' opt keep(2) w1'
      by (simp add: render_def Let_def)
    then show ?thesis by (simp add: r1)
  next
    case True
    then obtain html where html: "call env (html_callback r) r w1 = Inr html"
      and wr: "if truthy (force_update r) \<or> \<not> strict_eq html (old_node_html r)
               then r1 = r\<lparr>dom_writes := dom_writes r @ [html], old_node_html := html,
                            hook_calls := Suc (hook_calls r), force_update := JBool False\<rparr>
               else r1 = r"
      using body by auto
    have "call env (html_callback r) r w = call env (html_callback r) r w1"
      unfolding w1
      by (rule call_state_only[OF pure]) (simp_all add: clear_timeout_fields)
    then have nn: "html \<noteq> JNum NaN" using no_nan html by simp
    have html': "call env (html_callback r1) r1 w1 = Inr html"
      using call_state_only[OF pure keep(4) refl refl, of "html_callback r" w1] html keep(3)
      by simp
    show ?thesis
    proof (cases "truthy (force_update r) \<or> \<not> strict_eq html (old_node_html r)")
      case True
      then have r1: "r1 = r\<lparr>dom_writes := dom_writes r @ [html], old_node_html := html,
                            hook_calls := Suc (hook_calls r), force_update := JBool False\<rparr>"
        using wr by simp
      have quiet: "\<not> (truthy (force_update r1) \<or> \<not> strict_eq html (old_node_html r1))"
        using nn by (simp add: r1 strict_eq_def)
      have "render env r1 w1 = (Inr (), r1, w1)"
        using quiet \<open>truthy go\<close> go' html' opt keep(2) w1'
        by (simp add: render_def Let_def)
      then show ?thesis by (simp add: r1)
    next
      case False
      then have r1: "r1 = r" using wr by simp
      have quiet: "\<not> (truthy (force_update r1) \<or> \<not> strict_eq html (old_node_html r1))"
        using False by (simp add: r1)
      have "render env r1 w1 = (Inr (), r1, w1)"
        using quiet \<open>truthy go\<close> go' html' opt keep(2) w1'
        by (simp add: render_def Let_def)
      then show ?thesis by (simp add: r1)
    qed
  qed
qed


theorem render_twice_writes_once_witness:
  "looks_at_state_only example_env
   \<and> render example_env unrendered_reactor reactor_world = (Inr (), example_reactor, reactor_world)
   \<and> render example_env example_reactor reactor_world = (Inr (), example_reactor, reactor_world)
   \<and> dom_writes example_reactor = [JStr ''<b>hello</b>'']"
proof -
  have pure: "looks_at_state_only example_env"
    by (simp add: looks_at_state_only_def example_env_def)
  have nn: "call example_env (html_callback unrendered_reactor) unrendered_reactor reactor_world
              \<noteq> Inr (JNum NaN)"
    by (simp add: call_def unrendered_reactor_def example_env_def)
  have d: "dom_writes example_reactor = [JStr ''<b>hello</b>'']"
    by (simp add: example_reactor_def)
  show ?thesis
    using render_twice_writes_once[OF pure example_render nn] pure example_render d by simp
qed

end
